theory Spec2Isabelle
  imports Main "HOL-Library.Word" "HOL-Library.Char_ord" "HOL-Library.List_Lexorder"
begin

unbundle bit_operations_syntax

section \<open>Machine types and containers\<close>

text \<open>
  The linker computes on \<^verbatim>\<open>std::uint64_t\<close> addresses and \<^verbatim>\<open>unsigned char\<close> bytes;
  both wrap around.
\<close>

type_synonym u64 = "64 word"
type_synonym byte = "8 word"

text \<open>
  A \<^verbatim>\<open>std::map\<close> is kept as an association list in ascending key order, the
  order in which the container is iterated. \<open>map_assign k v m\<close> is \<^verbatim>\<open>m[k] = v\<close>: it
  replaces the value of a key that is present and inserts a new key at its place in
  the order. \<open>map_of m k\<close> is the lookup, \<open>map_count m k\<close> is \<^verbatim>\<open>m.count(k)\<close> and
  \<open>length m\<close> is \<^verbatim>\<open>m.size()\<close>.
\<close>

fun map_assign :: "'k::linorder \<Rightarrow> 'v \<Rightarrow> ('k \<times> 'v) list \<Rightarrow> ('k \<times> 'v) list" where
  "map_assign k v [] = [(k, v)]"
| "map_assign k v ((k', v') # m) =
     (if k < k' then (k, v) # (k', v') # m
      else if k = k' then (k, v) # m
      else (k', v') # map_assign k v m)"

definition map_count :: "('k \<times> 'v) list \<Rightarrow> 'k \<Rightarrow> bool" where
  "map_count m k = (map_of m k \<noteq> None)"

text \<open>The representation invariant of the container: keys strictly ascending.\<close>

definition map_ok :: "('k::linorder \<times> 'v) list \<Rightarrow> bool" where
  "map_ok m = (sorted (map fst m) \<and> distinct (map fst m))"

section \<open>Segment\<close>

text \<open>
  \<^verbatim>\<open>struct Segment\<close> of ulmld.cpp. The maps \<^verbatim>\<open>annotation\<close>, \<^verbatim>\<open>header\<close> and
  \<^verbatim>\<open>label\<close> are written by the parser and read by \<^verbatim>\<open>print\<close> only; they are left out,
  and with them the calls that only write them.
\<close>

record Segment =
  alignment :: u64
  baseAddr :: u64
  fill :: byte
  memory :: "(u64 \<times> byte) list"
  mark :: "(string \<times> u64) list"

definition Segment_init :: Segment where
  "Segment_init = \<lparr>alignment = 1, baseAddr = 0, fill = 0xFD, memory = [], mark = []\<rparr>"

definition size_seg :: "Segment \<Rightarrow> u64" where
  "size_seg s = of_nat (length (memory s))"

definition appendByte :: "byte \<Rightarrow> Segment \<Rightarrow> Segment" where
  "appendByte b s = s\<lparr>memory := map_assign (size_seg s) b (memory s)\<rparr>"

text \<open>
  The loop of \<^verbatim>\<open>patchBytes\<close>: \<^verbatim>\<open>for (i = numBytes; i-- > 0;)\<close> runs its body with
  \<open>i = numBytes - 1\<close> down to \<open>0\<close>, each time storing the low byte of \<open>value\<close> at
  \<open>addr + i\<close> and shifting \<open>value\<close> right by 8.
\<close>

fun patchLoop :: "nat \<Rightarrow> u64 \<Rightarrow> u64 \<Rightarrow> (u64 \<times> byte) list \<Rightarrow> (u64 \<times> byte) list" where
  "patchLoop 0 addr val mem = mem"
| "patchLoop (Suc i) addr val mem =
     patchLoop i addr (drop_bit 8 val) (map_assign (addr + of_nat i) (ucast (val AND 0xFF)) mem)"

definition patchBytes :: "u64 \<Rightarrow> u64 \<Rightarrow> u64 \<Rightarrow> Segment \<Rightarrow> Segment" where
  "patchBytes addr numBytes val s =
     s\<lparr>memory := patchLoop (unat numBytes) (addr - baseAddr s) val (memory s)\<rparr>"

section \<open>Failures\<close>

text \<open>
  Every \<^verbatim>\<open>throw Exception(...)\<close> of the source is a constructor of \<open>error\<close>.
  \<open>AssertionFailed\<close> is a failing \<^verbatim>\<open>assert\<close> (the process aborts); \<open>Indeterminate\<close>
  marks the places where the source would use a variable that no stream extraction
  has set, or divide by zero. A computation that may fail or loop forever has the type
  \<open>'a result\<close>: \<open>None\<close> when it does not return, \<open>Some (Inl e)\<close> when it fails with
  \<open>e\<close>, \<open>Some (Inr x)\<close> when it returns \<open>x\<close>.
\<close>

datatype error =
    AssertionFailed
  | Indeterminate
  | CanNotFind string
  | CanNotOpen string
  | NotAnObjectFile string
  | GapInSegment nat
  | MultipleDefinition string
  | CantHandleSymTabKind char
  | CantApplyFixInSegment string
  | UnresolvedSymbol string
  | RelativeNotMultipleOf4
  | CanNotApplyFix string

type_synonym 'a result = "(error + 'a) option"

definition ok :: "'a \<Rightarrow> 'a result" where
  "ok x = Some (Inr x)"

definition throw :: "error \<Rightarrow> 'a result" where
  "throw e = Some (Inl e)"

definition bindR :: "'a result \<Rightarrow> ('a \<Rightarrow> 'b result) \<Rightarrow> 'b result" where
  "bindR m f = (case m of None \<Rightarrow> None | Some (Inl e) \<Rightarrow> Some (Inl e) | Some (Inr x) \<Rightarrow> f x)"

section \<open>Segment operations\<close>

definition alignAddr :: "u64 \<Rightarrow> u64 \<Rightarrow> u64" where
  "alignAddr a alignTo = ((a + alignTo - 1) div alignTo) * alignTo"

text \<open>
  The loop \<^verbatim>\<open>while (addr > size()) appendByte(fill);\<close> of \<^verbatim>\<open>advanceTo\<close>. It does not
  return when \<^verbatim>\<open>memory\<close> already holds the key \<^verbatim>\<open>size()\<close>, since then \<^verbatim>\<open>appendByte\<close>
  leaves the size as it is.
\<close>

partial_function (option) advanceLoop :: "u64 \<Rightarrow> Segment \<Rightarrow> Segment option" where
  "advanceLoop a s = (if a > size_seg s then advanceLoop a (appendByte (fill s) s) else Some s)"

declare advanceLoop.simps [code]

definition advanceTo :: "u64 \<Rightarrow> Segment \<Rightarrow> Segment result" where
  "advanceTo addr0 s =
     (let a = addr0 - baseAddr s in
      if \<not> a \<ge> size_seg s then throw AssertionFailed
      else (case advanceLoop a s of
              None \<Rightarrow> None
            | Some s' \<Rightarrow> if size_seg s' = a then ok s' else throw AssertionFailed))"

definition setAlignment :: "u64 \<Rightarrow> Segment \<Rightarrow> Segment result" where
  "setAlignment a s =
     (if a = 0 then throw Indeterminate
      else if baseAddr s mod a \<noteq> 0 then throw AssertionFailed
      else (let s1 = (if a > alignment s then s\<lparr>alignment := a\<rparr> else s)
            in advanceTo (alignAddr (size_seg s1) (alignment s1)) s1))"

text \<open>
  \<^verbatim>\<open>mark[filename]\<close> default-constructs the entry of a file that has none, so it reads 0.
\<close>

definition markOf :: "Segment \<Rightarrow> string \<Rightarrow> u64" where
  "markOf s filename = (case map_of (mark s) filename of None \<Rightarrow> 0 | Some m \<Rightarrow> m)"

definition setMark :: "string \<Rightarrow> Segment \<Rightarrow> Segment" where
  "setMark filename s = s\<lparr>mark := map_assign filename (size_seg s) (mark s)\<rparr>"

definition getMark :: "Segment \<Rightarrow> string \<Rightarrow> u64" where
  "getMark s filename = baseAddr s + markOf s filename"

definition isAtMark :: "Segment \<Rightarrow> string \<Rightarrow> bool" where
  "isAtMark s filename = (markOf s filename = size_seg s)"

definition requiresAdvanceTo :: "u64 \<Rightarrow> Segment \<Rightarrow> bool" where
  "requiresAdvanceTo a s = (a - baseAddr s > size_seg s)"

definition setBaseAddr :: "u64 \<Rightarrow> Segment \<Rightarrow> Segment result" where
  "setBaseAddr b s =
     (if alignment s = 0 then throw Indeterminate
      else if b mod alignment s \<noteq> 0 then throw AssertionFailed
      else ok (s\<lparr>baseAddr := b\<rparr>))"

definition getEndAddr :: "Segment \<Rightarrow> u64" where
  "getEndAddr s = baseAddr s + size_seg s"

section \<open>Stream extraction\<close>

text \<open>
  A \<^verbatim>\<open>std::istringstream\<close> is the text still to be read, or \<open>None\<close> once \<^verbatim>\<open>failbit\<close> is
  set. An extraction \<^verbatim>\<open>in >> x\<close> returns the value stored into \<open>x\<close>, if any, and the
  stream after it. It stores nothing when the stream has failed before or holds only
  white space; a number that does not parse stores 0 and one that does not fit stores
  the largest value, both setting \<^verbatim>\<open>failbit\<close>.
\<close>

type_synonym istream = "string option"

definition isspace :: "char \<Rightarrow> bool" where
  "isspace c = (c = CHR '' '' \<or> (9 \<le> (of_char c :: nat) \<and> (of_char c :: nat) \<le> 13))"

definition isupper :: "char \<Rightarrow> bool" where
  "isupper c = (65 \<le> (of_char c :: nat) \<and> (of_char c :: nat) \<le> 90)"

definition islower :: "char \<Rightarrow> bool" where
  "islower c = (97 \<le> (of_char c :: nat) \<and> (of_char c :: nat) \<le> 122)"

definition toupper :: "char \<Rightarrow> char" where
  "toupper c = (if islower c then char_of ((of_char c :: nat) - 32) else c)"

definition digit_of :: "nat \<Rightarrow> char \<Rightarrow> nat option" where
  "digit_of base c =
     (let n = (of_char c :: nat);
          d = (if 48 \<le> n \<and> n \<le> 57 then n - 48
               else if 97 \<le> n \<and> n \<le> 102 then n - 87
               else if 65 \<le> n \<and> n \<le> 70 then n - 55
               else 16)
      in if d < base then Some d else None)"

definition is_digit :: "nat \<Rightarrow> char \<Rightarrow> bool" where
  "is_digit base c = (digit_of base c \<noteq> None)"

fun number_of :: "nat \<Rightarrow> int \<Rightarrow> string \<Rightarrow> int" where
  "number_of base acc [] = acc"
| "number_of base acc (c # cs) =
     number_of base
       (acc * int base + (case digit_of base c of None \<Rightarrow> 0 | Some d \<Rightarrow> int d)) cs"

text \<open>
  The text of a number: an optional sign, for base 16 an optional \<^verbatim>\<open>0x\<close>, then digits.
  The result is \<open>None\<close> when there is no digit, else the sign and the magnitude.
\<close>

definition scan_number :: "nat \<Rightarrow> string \<Rightarrow> (bool \<times> int) option \<times> string" where
  "scan_number base w =
     (let neg = (take 1 w = ''-'');
          w1 = (if take 1 w = ''-'' \<or> take 1 w = ''+'' then drop 1 w else w);
          w2 = (if base = 16 \<and> (take 2 w1 = ''0x'' \<or> take 2 w1 = ''0X'') then drop 2 w1 else w1);
          ds = takeWhile (is_digit base) w2
      in (if ds = [] then None else Some (neg, number_of base 0 ds),
          dropWhile (is_digit base) w2))"

definition extract_char :: "istream \<Rightarrow> char option \<times> istream" where
  "extract_char st =
     (case st of None \<Rightarrow> (None, None)
      | Some s \<Rightarrow> (case dropWhile isspace s of [] \<Rightarrow> (None, None) | c # r \<Rightarrow> (Some c, Some r)))"

definition extract_string :: "istream \<Rightarrow> string option \<times> istream" where
  "extract_string st =
     (case st of None \<Rightarrow> (None, None)
      | Some s \<Rightarrow>
          (case dropWhile isspace s of [] \<Rightarrow> (None, None)
           | c # r \<Rightarrow> (Some (takeWhile (\<lambda>x. \<not> isspace x) (c # r)),
                       Some (dropWhile (\<lambda>x. \<not> isspace x) (c # r)))))"

text \<open>Extraction into a \<^verbatim>\<open>std::uint64_t\<close>; a minus sign negates modulo \<open>2 ^ 64\<close>.\<close>

definition extract_u64 :: "nat \<Rightarrow> istream \<Rightarrow> u64 option \<times> istream" where
  "extract_u64 base st =
     (case st of None \<Rightarrow> (None, None)
      | Some s \<Rightarrow>
          (case dropWhile isspace s of [] \<Rightarrow> (None, None)
           | c # r \<Rightarrow>
               (case scan_number base (c # r) of
                  (None, rest) \<Rightarrow> (Some 0, None)
                | (Some (neg, n), rest) \<Rightarrow>
                    if n \<ge> 2 ^ 64 then (Some (- 1), None)
                    else (Some (if neg then - word_of_int n else word_of_int n), Some rest))))"

text \<open>
  Extraction into a signed integer of \<open>w\<close> bits (\<^verbatim>\<open>int\<close>, \<^verbatim>\<open>std::int64_t\<close>), as the two's
  complement bit pattern in a \<open>u64\<close>; out-of-range values are clamped and set \<^verbatim>\<open>failbit\<close>.
\<close>

definition extract_signed :: "nat \<Rightarrow> nat \<Rightarrow> istream \<Rightarrow> u64 option \<times> istream" where
  "extract_signed w base st =
     (case st of None \<Rightarrow> (None, None)
      | Some s \<Rightarrow>
          (case dropWhile isspace s of [] \<Rightarrow> (None, None)
           | c # r \<Rightarrow>
               (case scan_number base (c # r) of
                  (None, rest) \<Rightarrow> (Some 0, None)
                | (Some (neg, n), rest) \<Rightarrow>
                    if neg \<and> n > 2 ^ (w - 1) then (Some (- (2 ^ (w - 1))), None)
                    else if \<not> neg \<and> n \<ge> 2 ^ (w - 1) then (Some (2 ^ (w - 1) - 1), None)
                    else (Some (if neg then - word_of_int n else word_of_int n), Some rest))))"

section \<open>insertByteString\<close>

text \<open>
  One round of the loop of \<^verbatim>\<open>insertByteString\<close> reads the next two characters with
  \<^verbatim>\<open>in >> std::hex >> byte\<close> into an \<^verbatim>\<open>int\<close> and stores \<^verbatim>\<open>byte & 0xFF\<close>. When the
  extraction fails the source writes a message to \<^verbatim>\<open>std::cerr\<close> and goes on with the
  value the extraction left in \<open>byte\<close>. \<open>hexByte\<close> returns that value, and whether
  the message was written.
\<close>

definition hexByte :: "string \<Rightarrow> (byte \<times> bool) option" where
  "hexByte byteString =
     (case extract_signed 32 16 (Some byteString) of
        (None, st) \<Rightarrow> None
      | (Some v, st) \<Rightarrow> Some (ucast (v AND 0xFF), st = None))"

fun insertLoop :: "nat \<Rightarrow> u64 \<Rightarrow> string \<Rightarrow> (u64 \<times> byte) list \<Rightarrow> error + (u64 \<times> byte) list" where
  "insertLoop 0 a hexDigits mem = Inr mem"
| "insertLoop (Suc n) a hexDigits mem =
     (case hexByte (take 2 hexDigits) of
        None \<Rightarrow> Inl Indeterminate
      | Some (b, complained) \<Rightarrow> insertLoop n (a + 1) (drop 2 hexDigits) (map_assign a b mem))"

definition insertByteString :: "u64 \<Rightarrow> string \<Rightarrow> Segment \<Rightarrow> Segment result" where
  "insertByteString addr0 hexDigits s =
     (let a = addr0 - baseAddr s in
      bindR (if requiresAdvanceTo a s then advanceTo a s else ok s)
        (\<lambda>s1. if length hexDigits mod 2 \<noteq> 0 then throw AssertionFailed
              else (case insertLoop (length hexDigits div 2) a hexDigits (memory s1) of
                      Inl e \<Rightarrow> throw e
                    | Inr mem \<Rightarrow> ok (s1\<lparr>memory := mem\<rparr>))))"

section \<open>ObjectFile\<close>

text \<open>
  \<^verbatim>\<open>struct ObjectFile\<close>. The three segments are indexed 0 (text), 1 (data), 2 (bss). A
  \<^verbatim>\<open>std::set\<close> of strings is an ascending list without duplicates. The displacement
  of a fixup is an \<^verbatim>\<open>std::int64_t\<close> that the code only ever adds to unsigned values, so
  it is kept as its bit pattern.
\<close>

type_synonym SymEntry = "char \<times> u64"

record FixEntry =
  fx_segment :: string
  fx_kind :: string
  fx_addr :: u64
  fx_offset :: u64
  fx_numBytes :: u64
  fx_displace :: u64

record ObjectFile =
  segments :: "nat \<Rightarrow> Segment"
  symTab :: "(string \<times> SymEntry) list"
  localSymTab :: "(string \<times> SymEntry list) list"
  unresolved :: "string list"
  fixables :: "(string \<times> FixEntry list) list"
  libpath :: "string list"

fun set_insert :: "'a::linorder \<Rightarrow> 'a list \<Rightarrow> 'a list" where
  "set_insert x [] = [x]"
| "set_insert x (y # ys) =
     (if x < y then x # y # ys else if x = y then y # ys else y # set_insert x ys)"

definition set_erase :: "'a \<Rightarrow> 'a list \<Rightarrow> 'a list" where
  "set_erase x xs = removeAll x xs"

definition set_count :: "'a list \<Rightarrow> 'a \<Rightarrow> bool" where
  "set_count xs x = (x \<in> set xs)"

text \<open>\<^verbatim>\<open>s.find(p) == 0\<close>: the string starts with \<open>p\<close>.\<close>

definition starts_with :: "string \<Rightarrow> string \<Rightarrow> bool" where
  "starts_with p s = (take (length p) s = p)"

text \<open>\<^verbatim>\<open>s.find(c)\<close>: the index of the first \<open>c\<close>, if there is one.\<close>

definition find_char :: "char \<Rightarrow> string \<Rightarrow> nat option" where
  "find_char c s = (if c \<in> set s then Some (length (takeWhile (\<lambda>x. x \<noteq> c) s)) else None)"

text \<open>
  The constructor splits the environment variable \<^verbatim>\<open>ULM_LIBRARY_PATH\<close>, if set, at
  every colon.
\<close>

fun split_colon :: "string \<Rightarrow> string \<Rightarrow> string list" where
  "split_colon acc [] = [rev acc]"
| "split_colon acc (c # cs) =
     (if c = CHR '':'' then rev acc # split_colon [] cs else split_colon (c # acc) cs)"

definition ObjectFile_init :: "string option \<Rightarrow> ObjectFile" where
  "ObjectFile_init env =
     \<lparr>segments = (\<lambda>i. Segment_init), symTab = [], localSymTab = [], unresolved = [],
      fixables = [],
      libpath = (case env of None \<Rightarrow> [] | Some e \<Rightarrow> foldl (\<lambda>l d. set_insert d l) [] (split_colon [] e))\<rparr>"

section \<open>readSegments\<close>

text \<open>The branches \<^verbatim>\<open>#TEXT\<close> (\<open>seg = 0\<close>) and \<^verbatim>\<open>#DATA\<close> (\<open>seg = 1\<close>).\<close>

definition segmentDirective :: "nat \<Rightarrow> string \<Rightarrow> string \<Rightarrow> ObjectFile \<Rightarrow> ObjectFile result" where
  "segmentDirective seg line src obj =
     (let l = filter (\<lambda>c. \<not> isspace c) (drop 5 line) in
      bindR (if length l > 0
             then (case fst (extract_u64 10 (Some l)) of
                     None \<Rightarrow> throw Indeterminate
                   | Some a \<Rightarrow> setAlignment a (segments obj seg))
             else ok (segments obj seg))
        (\<lambda>s. ok (obj\<lparr>segments := (segments obj)(seg := setMark src s)\<rparr>)))"

text \<open>The branch \<^verbatim>\<open>#BSS\<close>.\<close>

definition bssDirective :: "string \<Rightarrow> string \<Rightarrow> ObjectFile \<Rightarrow> ObjectFile result" where
  "bssDirective line src obj =
     (let s0 = setMark src (segments obj 2); l = drop 4 line in
      if length l = 0 then throw AssertionFailed
      else (let (ao, st1) = extract_u64 10 (Some l); (szo, st2) = extract_u64 10 st1 in
            case (ao, szo) of
              (Some a, Some sz) \<Rightarrow>
                bindR (setAlignment a s0)
                  (\<lambda>s1. bindR (if sz \<noteq> 0 then advanceTo (sz + getMark s1 src) s1 else ok s1)
                    (\<lambda>s2. ok (obj\<lparr>segments := (segments obj)(2 := s2)\<rparr>)))
            | _ \<Rightarrow> throw Indeterminate))"

text \<open>
  A line of bytes in the text or data segment. \<open>base\<close> is the local variable
  \<^verbatim>\<open>baseAddr\<close> of \<^verbatim>\<open>readSegments\<close>; the new value is returned with the object.
\<close>

definition byteLine ::
  "nat \<Rightarrow> string \<Rightarrow> string \<Rightarrow> u64 \<Rightarrow> ObjectFile \<Rightarrow> (u64 \<times> ObjectFile) result" where
  "byteLine seg line0 src base obj =
     (let line = filter (\<lambda>c. \<not> isspace c) (takeWhile (\<lambda>c. c \<noteq> CHR ''#'') line0);
          s = segments obj seg
      in case (case find_char CHR '':'' line of
                 Some p \<Rightarrow>
                   (case fst (extract_u64 16 (Some line)) of
                      None \<Rightarrow> None
                    | Some a \<Rightarrow>
                        (let base1 = (if isAtMark s src then a else base)
                         in Some (a - base1, drop (p + 1) line, base1)))
               | None \<Rightarrow>
                   (let a = size_seg s - getMark s src;
                        base1 = (if isAtMark s src then a else base)
                    in Some (a, line, base1))) of
           None \<Rightarrow> throw Indeterminate
         | Some (a, line1, base1) \<Rightarrow>
             (let a1 = a + getMark s src in
              if requiresAdvanceTo a1 s then throw (GapInSegment seg)
              else bindR (insertByteString a1 line1 s)
                     (\<lambda>s'. ok (base1, obj\<lparr>segments := (segments obj)(seg := s')\<rparr>))))"

text \<open>A line of the symbol table: \<^verbatim>\<open>kind ident value\<close>.\<close>

definition symtabLine :: "string \<Rightarrow> string \<Rightarrow> ObjectFile \<Rightarrow> ObjectFile result" where
  "symtabLine line src obj =
     (let (kindo, st1) = extract_char (Some line);
          (idento, st2) = extract_string st1;
          (valo, st3) = extract_u64 16 st2;
          ident = (case idento of None \<Rightarrow> [] | Some i \<Rightarrow> i)
      in case kindo of
           None \<Rightarrow> throw Indeterminate
         | Some kind \<Rightarrow>
             (let obj1 = (if kind = CHR ''T'' \<or> kind = CHR ''D'' \<or> kind = CHR ''B''
                          then obj\<lparr>unresolved := set_erase ident (unresolved obj)\<rparr> else obj);
                  bias = (if kind = CHR ''T'' \<or> kind = CHR ''t'' then getMark (segments obj 0) src
                          else if kind = CHR ''D'' \<or> kind = CHR ''d'' then getMark (segments obj 1) src
                          else if kind = CHR ''B'' \<or> kind = CHR ''b'' then getMark (segments obj 2) src
                          else 0);
                  in_switch = (kind = CHR ''T'' \<or> kind = CHR ''t'' \<or> kind = CHR ''D'' \<or>
                               kind = CHR ''d'' \<or> kind = CHR ''B'' \<or> kind = CHR ''b'')
              in if in_switch \<and> valo = None then throw Indeterminate
                 else if kind = CHR ''U'' then
                   ok (if (case map_of (symTab obj1) ident of
                             None \<Rightarrow> True | Some e \<Rightarrow> \<not> isupper (fst e))
                       then obj1\<lparr>unresolved := set_insert ident (unresolved obj1)\<rparr>
                       else obj1)
                 else if take 1 ident = ''.'' then ok obj1
                 else (case valo of
                         None \<Rightarrow> throw Indeterminate
                       | Some v \<Rightarrow>
                           if toupper kind \<noteq> kind then
                             ok (obj1\<lparr>localSymTab :=
                                   map_assign ident
                                     ((case map_of (localSymTab obj1) ident of
                                         None \<Rightarrow> [] | Some es \<Rightarrow> es) @ [(kind, v + bias)])
                                     (localSymTab obj1)\<rparr>)
                           else if map_count (symTab obj1) ident then
                             throw (MultipleDefinition ident)
                           else ok (obj1\<lparr>symTab := map_assign ident (kind, v + bias) (symTab obj1)\<rparr>))))"

text \<open>
  The suffix \<^verbatim>\<open>+N\<close> or \<^verbatim>\<open>-N\<close> of the identifier of a fixup; a plus sign is looked for
  first.
\<close>

definition splitDisplace :: "string \<Rightarrow> string \<times> u64" where
  "splitDisplace ident =
     (let displ = (\<lambda>t. case fst (extract_signed 64 10 (Some t)) of None \<Rightarrow> 0 | Some d \<Rightarrow> d) in
      case find_char CHR ''+'' ident of
        Some p \<Rightarrow> (take p ident, displ (drop p ident))
      | None \<Rightarrow>
          (case find_char CHR ''-'' ident of
             Some p \<Rightarrow> (take p ident, displ (drop p ident))
           | None \<Rightarrow> (ident, 0)))"

text \<open>
  A line of the fixups: \<^verbatim>\<open>segment address offset numBytes kind ident\<close>, the address in
  hexadecimal, offset and numBytes in decimal.
\<close>

definition fixupLine :: "string \<Rightarrow> string \<Rightarrow> ObjectFile \<Rightarrow> ObjectFile result" where
  "fixupLine line src obj =
     (let (sego, st1) = extract_string (Some line);
          (addro, st2) = extract_u64 16 st1;
          (offo, st3) = extract_u64 10 st2;
          (numo, st4) = extract_u64 10 st3;
          (kindo, st5) = extract_string st4;
          (idento, st6) = extract_string st5;
          seg_name = (case sego of None \<Rightarrow> [] | Some x \<Rightarrow> x);
          kind = (case kindo of None \<Rightarrow> [] | Some x \<Rightarrow> x);
          ident0 = (case idento of None \<Rightarrow> [] | Some x \<Rightarrow> x)
      in case (addro, offo, numo) of
           (Some address, Some off, Some num) \<Rightarrow>
             if off mod 8 \<noteq> 0 then throw AssertionFailed
             else if num mod 4 \<noteq> 0 then throw AssertionFailed
             else
               (let off1 = off div 8;
                    num1 = num div 8;
                    fixInSeg = (if seg_name = ''text'' then 0 else 1 :: nat);
                    address1 = address + getMark (segments obj fixInSeg) src;
                    (ident, displace0) = splitDisplace ident0;
                    displace =
                      (if ident = ''[text]'' then displace0 + getMark (segments obj 0) src
                       else if ident = ''[data]'' then displace0 + getMark (segments obj 1) src
                       else if ident = ''[bss]'' then displace0 + getMark (segments obj 2) src
                       else displace0);
                    entry = \<lparr>fx_segment = seg_name, fx_kind = kind, fx_addr = address1,
                             fx_offset = off1, fx_numBytes = num1, fx_displace = displace\<rparr>
                in ok (obj\<lparr>fixables :=
                         map_assign ident
                           ((case map_of (fixables obj) ident of None \<Rightarrow> [] | Some es \<Rightarrow> es)
                              @ [entry])
                           (fixables obj)\<rparr>))
         | _ \<Rightarrow> throw Indeterminate)"

text \<open>
  One round of the \<^verbatim>\<open>while (std::getline(in, line))\<close> loop. The state is the local
  variables \<^verbatim>\<open>seg\<close> and \<^verbatim>\<open>baseAddr\<close> and the object.
\<close>

definition readLine ::
  "string \<Rightarrow> string \<Rightarrow> u64 \<times> u64 \<times> ObjectFile \<Rightarrow> (u64 \<times> u64 \<times> ObjectFile) result" where
  "readLine line src st =
     (case st of (seg, base, obj) \<Rightarrow>
        if starts_with ''#TEXT'' line then
          bindR (segmentDirective 0 line src obj) (\<lambda>obj'. ok (0, base, obj'))
        else if starts_with ''#DATA'' line then
          bindR (segmentDirective 1 line src obj) (\<lambda>obj'. ok (1, base, obj'))
        else if starts_with ''#BSS'' line then
          bindR (bssDirective line src obj) (\<lambda>obj'. ok (2, base, obj'))
        else if starts_with ''#SYMTAB'' line then ok (3, base, obj)
        else if starts_with ''#FIXUPS'' line then ok (4, base, obj)
        else if starts_with ''#'' line \<or> length line = 0 then ok (seg, base, obj)
        else if seg = 0 \<or> seg = 1 then
          bindR (byteLine (unat seg) line src base obj) (\<lambda>(base', obj'). ok (seg, base', obj'))
        else if seg = 3 then
          bindR (symtabLine line src obj) (\<lambda>obj'. ok (seg, base, obj'))
        else if seg = 4 then
          bindR (fixupLine line src obj) (\<lambda>obj'. ok (seg, base, obj'))
        else ok (seg, base, obj))"

fun readLines ::
  "string list \<Rightarrow> string \<Rightarrow> u64 \<times> u64 \<times> ObjectFile \<Rightarrow> ObjectFile result" where
  "readLines [] src st = ok (snd (snd st))"
| "readLines (line # rest) src st = bindR (readLine line src st) (readLines rest src)"

text \<open>
  \<^verbatim>\<open>readSegments(in, source)\<close>. The stream is given as its lines, as \<^verbatim>\<open>std::getline\<close>
  returns them, or \<open>None\<close> for a stream that could not be opened; \<^verbatim>\<open>in.peek()\<close> is the
  first character of the first line.
\<close>

definition readSegments :: "string list option \<Rightarrow> string \<Rightarrow> ObjectFile \<Rightarrow> ObjectFile result" where
  "readSegments inp src obj =
     (case inp of
        None \<Rightarrow> throw (NotAnObjectFile src)
      | Some ls \<Rightarrow>
          if \<not> (case ls of [] \<Rightarrow> False | l # _ \<Rightarrow> starts_with ''#'' l)
          then throw (NotAnObjectFile src)
          else readLines ls src (- 1, 0, obj))"

section \<open>link\<close>

text \<open>The loop over \<^verbatim>\<open>symTab\<close> that turns segment offsets into addresses.\<close>

definition relocateEntry :: "u64 \<Rightarrow> u64 \<Rightarrow> u64 \<Rightarrow> SymEntry \<Rightarrow> error + SymEntry" where
  "relocateEntry textAddr dataAddr bssAddr e =
     (if fst e = CHR ''T'' then Inr (fst e, snd e + textAddr)
      else if fst e = CHR ''D'' then Inr (fst e, snd e + dataAddr)
      else if fst e = CHR ''B'' then Inr (fst e, snd e + bssAddr)
      else if fst e \<noteq> CHR ''A'' then Inl (CantHandleSymTabKind (fst e))
      else Inr e)"

fun relocateSymTab ::
  "u64 \<Rightarrow> u64 \<Rightarrow> u64 \<Rightarrow> (string \<times> SymEntry) list \<Rightarrow> error + (string \<times> SymEntry) list" where
  "relocateSymTab textAddr dataAddr bssAddr [] = Inr []"
| "relocateSymTab textAddr dataAddr bssAddr ((ident, e) # rest) =
     (case relocateEntry textAddr dataAddr bssAddr e of
        Inl x \<Rightarrow> Inl x
      | Inr e' \<Rightarrow>
          (case relocateSymTab textAddr dataAddr bssAddr rest of
             Inl x \<Rightarrow> Inl x
           | Inr rest' \<Rightarrow> Inr ((ident, e') # rest')))"

text \<open>
  The body of the loop over the fixups, in its four steps: the address of the site and
  the index of its segment, the value of the target, the value to store for the kind of
  the fixup, and the patch.
\<close>

definition fixSite :: "u64 \<Rightarrow> u64 \<Rightarrow> FixEntry \<Rightarrow> error + u64 \<times> nat" where
  "fixSite textAddr dataAddr fixEntry =
     (if fx_segment fixEntry = ''text'' then Inr (fx_addr fixEntry + textAddr, 0)
      else if fx_segment fixEntry = ''data'' then Inr (fx_addr fixEntry + dataAddr, 1)
      else Inl (CantApplyFixInSegment (fx_segment fixEntry)))"

definition fixTarget ::
  "u64 \<Rightarrow> u64 \<Rightarrow> u64 \<Rightarrow> string \<Rightarrow> FixEntry \<Rightarrow> ObjectFile \<Rightarrow> error + u64" where
  "fixTarget textAddr dataAddr bssAddr ident fixEntry obj =
     (if ident = ''[text]'' then Inr (fx_displace fixEntry + textAddr)
      else if ident = ''[data]'' then Inr (fx_displace fixEntry + dataAddr)
      else if ident = ''[bss]'' then Inr (fx_displace fixEntry + bssAddr)
      else (case map_of (symTab obj) ident of
              Some e \<Rightarrow> Inr (fx_displace fixEntry + snd e)
            | None \<Rightarrow> Inl (UnresolvedSymbol ident)))"

definition fixValue :: "string \<Rightarrow> u64 \<Rightarrow> u64 \<Rightarrow> error + u64" where
  "fixValue kind val a =
     (if kind = ''relative'' then
        (if (val - a) mod 4 \<noteq> 0 then Inl RelativeNotMultipleOf4 else Inr ((val - a) div 4))
      else if kind = ''w0'' then Inr (val AND 0xFFFF)
      else if kind = ''w1'' then Inr (drop_bit 16 val AND 0xFFFF)
      else if kind = ''w2'' then Inr (drop_bit 32 val AND 0xFFFF)
      else if kind = ''w3'' then Inr (drop_bit 48 val AND 0xFFFF)
      else if kind \<noteq> ''absolute'' then Inl (CanNotApplyFix kind)
      else Inr val)"

definition applyFix ::
  "u64 \<Rightarrow> u64 \<Rightarrow> u64 \<Rightarrow> string \<Rightarrow> FixEntry \<Rightarrow> ObjectFile \<Rightarrow> error + ObjectFile" where
  "applyFix textAddr dataAddr bssAddr ident fixEntry obj =
     (case fixSite textAddr dataAddr fixEntry of
        Inl e \<Rightarrow> Inl e
      | Inr (a, seg) \<Rightarrow>
          (case fixTarget textAddr dataAddr bssAddr ident fixEntry obj of
             Inl e \<Rightarrow> Inl e
           | Inr val \<Rightarrow>
               (case fixValue (fx_kind fixEntry) val a of
                  Inl e \<Rightarrow> Inl e
                | Inr v \<Rightarrow>
                    Inr (obj\<lparr>segments := (segments obj)
                           (seg := patchBytes (a + fx_offset fixEntry) (fx_numBytes fixEntry) v
                                     (segments obj seg))\<rparr>))))"

fun applyFixes ::
  "u64 \<Rightarrow> u64 \<Rightarrow> u64 \<Rightarrow> string \<Rightarrow> FixEntry list \<Rightarrow> ObjectFile \<Rightarrow> error + ObjectFile" where
  "applyFixes textAddr dataAddr bssAddr ident [] obj = Inr obj"
| "applyFixes textAddr dataAddr bssAddr ident (fixEntry # rest) obj =
     (case applyFix textAddr dataAddr bssAddr ident fixEntry obj of
        Inl e \<Rightarrow> Inl e
      | Inr obj' \<Rightarrow> applyFixes textAddr dataAddr bssAddr ident rest obj')"

fun resolveFixables ::
  "u64 \<Rightarrow> u64 \<Rightarrow> u64 \<Rightarrow> (string \<times> FixEntry list) list \<Rightarrow> ObjectFile \<Rightarrow> error + ObjectFile" where
  "resolveFixables textAddr dataAddr bssAddr [] obj = Inr obj"
| "resolveFixables textAddr dataAddr bssAddr ((ident, vFixEntry) # rest) obj =
     (case applyFixes textAddr dataAddr bssAddr ident vFixEntry obj of
        Inl e \<Rightarrow> Inl e
      | Inr obj' \<Rightarrow> resolveFixables textAddr dataAddr bssAddr rest obj')"

text \<open>
  The placement of \<^verbatim>\<open>link()\<close>: the data segment follows the text segment, the text
  segment is padded up to it, the bss segment follows the data segment, and the symbol
  table is relocated. The result carries the three addresses.
\<close>

definition place :: "ObjectFile \<Rightarrow> (u64 \<times> u64 \<times> u64 \<times> ObjectFile) result" where
  "place obj =
     (let textAddr = baseAddr (segments obj 0);
          dataAddr = alignAddr (getEndAddr (segments obj 0)) (alignment (segments obj 1))
      in bindR (setBaseAddr dataAddr (segments obj 1))
           (\<lambda>s1. bindR (advanceTo dataAddr (segments obj 0))
             (\<lambda>s0. let bssAddr = alignAddr (getEndAddr s1) (alignment (segments obj 2))
                   in bindR (setBaseAddr bssAddr (segments obj 2))
                        (\<lambda>s2. case relocateSymTab textAddr dataAddr bssAddr (symTab obj) of
                                Inl e \<Rightarrow> throw e
                              | Inr st \<Rightarrow>
                                  ok (textAddr, dataAddr, bssAddr,
                                      obj\<lparr>segments := (segments obj)(0 := s0, 1 := s1, 2 := s2),
                                          symTab := st\<rparr>)))))"

definition link :: "ObjectFile \<Rightarrow> ObjectFile result" where
  "link obj =
     bindR (place obj)
       (\<lambda>(textAddr, dataAddr, bssAddr, obj1).
          case resolveFixables textAddr dataAddr bssAddr (fixables obj1) obj1 of
            Inl e \<Rightarrow> throw e
          | Inr obj2 \<Rightarrow> ok obj2)"

section \<open>Archives and files\<close>

text \<open>
  An archive file is modelled after its 60-byte headers have been decoded: the list of
  its entries in the order of the file, each the string table (\<^verbatim>\<open>//\<close>) or a member with
  its name and its body as lines; the member whose name is empty is the symbol table.
  \<^verbatim>\<open>archive_reader::scan\<close> builds the directory \<^verbatim>\<open>members\<close>, a \<^verbatim>\<open>std::map\<close> from
  the name to the member, and fails on a second string table, a string table after a
  member, a second symbol table and a repeated name.
\<close>

datatype ar_entry = StringTable | Member string "string list"

type_synonym directory = "(string \<times> string list) list"

fun scan :: "ar_entry list \<Rightarrow> bool \<Rightarrow> bool \<Rightarrow> directory \<Rightarrow> directory option" where
  "scan [] string_table symtable members = Some members"
| "scan (StringTable # es) string_table symtable members =
     (if length members > 0 \<or> string_table then None
      else scan es True symtable members)"
| "scan (Member name body # es) string_table symtable members =
     (if length name = 0 then
        (if symtable then None else scan es string_table True members)
      else if map_count members name then None
      else scan es string_table symtable (map_assign name body members))"

text \<open>
  A file is a text file, given by its lines, or starts with the archive magic. The files
  that exist are an association list from path to file.
\<close>

datatype file_content = Text "string list" | Archive "ar_entry list"

type_synonym filesystem = "(string \<times> file_content) list"

definition file_lines :: "file_content \<Rightarrow> string list" where
  "file_lines f = (case f of Text ls \<Rightarrow> ls | Archive es \<Rightarrow> [''!<arch>''])"

text \<open>\<^verbatim>\<open>archive_reader::open\<close>: the directory of the archive, if the file is one.\<close>

definition open_archive :: "filesystem \<Rightarrow> string \<Rightarrow> directory option" where
  "open_archive fs path =
     (case map_of fs path of
        Some (Archive es) \<Rightarrow> scan es False False []
      | _ \<Rightarrow> None)"

section \<open>addLibOrObject\<close>

fun readSymtabIndex :: "string list \<Rightarrow> ObjectFile \<Rightarrow> string option" where
  "readSymtabIndex [] obj = None"
| "readSymtabIndex (line # rest) obj =
     (let (kindo, st1) = extract_char (Some line);
          (idento, st2) = extract_string st1;
          (membero, st3) = extract_string st2;
          ident = (case idento of None \<Rightarrow> [] | Some x \<Rightarrow> x);
          member = (case membero of None \<Rightarrow> [] | Some x \<Rightarrow> x)
      in if set_count (unresolved obj) ident then Some member
         else readSymtabIndex rest obj)"

text \<open>The search of \<^verbatim>\<open>-lNAME\<close> through \<^verbatim>\<open>libpath\<close>.\<close>

fun searchLib :: "filesystem \<Rightarrow> string list \<Rightarrow> string \<Rightarrow> (string \<times> directory) option" where
  "searchLib fs [] name = None"
| "searchLib fs (dir # dirs) name =
     (let path = dir @ ''/lib'' @ name @ ''.a'' in
      case open_archive fs path of
        Some members \<Rightarrow> Some (path, members)
      | None \<Rightarrow> searchLib fs dirs name)"

text \<open>An archive without \<^verbatim>\<open>__SYMTAB_INDEX\<close>: the loop over the directory.\<close>

fun readMembers :: "directory \<Rightarrow> string \<Rightarrow> ObjectFile \<Rightarrow> ObjectFile result" where
  "readMembers [] file obj = ok obj"
| "readMembers ((name, body) # rest) file obj =
     bindR (readSegments (Some body) (file @ ''('' @ name @ '')'') obj) (readMembers rest file)"

text \<open>
  An archive with \<^verbatim>\<open>__SYMTAB_INDEX\<close>: the \<^verbatim>\<open>while (1)\<close> loop, which reads the index
  from its start, loads the member of the first line that names an unresolved symbol,
  and starts again.
\<close>

partial_function (option) indexLoop ::
  "directory \<Rightarrow> string \<Rightarrow> string list \<Rightarrow> nat \<Rightarrow> ObjectFile \<Rightarrow> (error + nat \<times> ObjectFile) option" where
  "indexLoop members file index resolved obj =
     (case readSymtabIndex index obj of
        None \<Rightarrow> Some (Inr (resolved, obj))
      | Some member \<Rightarrow>
          (case readSegments (map_of members member) (file @ ''('' @ member @ '')'') obj of
             None \<Rightarrow> None
           | Some (Inl e) \<Rightarrow> Some (Inl e)
           | Some (Inr obj') \<Rightarrow> indexLoop members file index 1 obj'))"

declare indexLoop.simps [code]

definition addLibOrObject ::
  "filesystem \<Rightarrow> string \<Rightarrow> bool \<Rightarrow> ObjectFile \<Rightarrow> (nat \<times> ObjectFile) result" where
  "addLibOrObject fs file0 onlyLibs obj =
     (let (opened, file) =
            (if starts_with ''-l'' file0 then
               (case searchLib fs (libpath obj) (drop 2 file0) of
                  Some (path, members) \<Rightarrow> (Some members, path)
                | None \<Rightarrow> (None, file0))
             else (open_archive fs file0, file0))
      in if opened = None \<and> \<not> onlyLibs then
           (case map_of fs file of
              None \<Rightarrow> throw (if starts_with ''-l'' file then CanNotFind file else CanNotOpen file)
            | Some f \<Rightarrow>
                bindR (readSegments (Some (file_lines f)) file obj) (\<lambda>obj'. ok (0, obj')))
         else
           (let members = (case opened of None \<Rightarrow> [] | Some m \<Rightarrow> m) in
            case map_of members ''__SYMTAB_INDEX'' of
              None \<Rightarrow> bindR (readMembers members file obj) (\<lambda>obj'. ok (0, obj'))
            | Some index \<Rightarrow> indexLoop members file index 0 obj))"

section \<open>main\<close>

text \<open>
  The ways \<^verbatim>\<open>main\<close> ends: \<^verbatim>\<open>usage()\<close>; \<^verbatim>\<open>return 1\<close> after a message about the group
  options; the use of \<^verbatim>\<open>argv[argc]\<close>, a null pointer, as a string; an \<^verbatim>\<open>Exception\<close>
  caught at the end of \<^verbatim>\<open>main\<close>, which deletes the output files and exits with 1; an
  abort (\<open>AssertionFailed\<close> and \<open>Indeterminate\<close> are no exceptions); and the linked
  object, printed to the output file.
\<close>

datatype outcome =
    Usage
  | GroupError
  | NullArgument
  | Caught error
  | Aborted error
  | Linked string ObjectFile

definition failure :: "error \<Rightarrow> outcome" where
  "failure e = (if e = AssertionFailed \<or> e = Indeterminate then Aborted e else Caught e)"

text \<open>The local variables of \<^verbatim>\<open>main\<close>.\<close>

record Driver =
  pOut :: "string option"
  startAddr :: u64
  startGroup :: "nat option"
  objectFile :: ObjectFile

text \<open>The first loop over the arguments collects the \<^verbatim>\<open>-L\<close> directories.\<close>

fun collectL :: "string list \<Rightarrow> string list \<Rightarrow> string list option" where
  "collectL [] lp = Some lp"
| "collectL (a # rest) lp =
     (if a = ''-L'' then
        (case rest of [] \<Rightarrow> None | dir # rest' \<Rightarrow> collectL rest' (set_insert dir lp))
      else if starts_with ''-L'' a then collectL rest (set_insert (drop 2 a) lp)
      else collectL rest lp)"

text \<open>
  One sweep \<^verbatim>\<open>for (g = startGroup; g < i; ++g)\<close> over the arguments of a group, and
  the \<^verbatim>\<open>do ... while (true)\<close> loop around it.
\<close>

fun groupSweep ::
  "filesystem \<Rightarrow> string list \<Rightarrow> nat \<Rightarrow> ObjectFile \<Rightarrow> (nat \<times> ObjectFile) result" where
  "groupSweep fs [] resolved obj = ok (resolved, obj)"
| "groupSweep fs (a # rest) resolved obj =
     bindR (addLibOrObject fs a True obj)
       (\<lambda>(r, obj'). groupSweep fs rest (resolved + (if r > 0 then 1 else 0)) obj')"

partial_function (option) groupLoop ::
  "filesystem \<Rightarrow> string list \<Rightarrow> ObjectFile \<Rightarrow> (error + ObjectFile) option" where
  "groupLoop fs args obj =
     (case groupSweep fs args 0 obj of
        None \<Rightarrow> None
      | Some (Inl e) \<Rightarrow> Some (Inl e)
      | Some (Inr (resolved, obj')) \<Rightarrow>
          if resolved = 0 then Some (Inr obj') else groupLoop fs args obj')"

declare groupLoop.simps [code]

text \<open>
  The second loop over the arguments, from index \<open>i\<close>. \<^verbatim>\<open>-textseg\<close> reads the next
  argument into \<^verbatim>\<open>startAddr\<close> and goes on with that same argument; the line that would
  reset \<^verbatim>\<open>startGroup\<close> at the end of a group is a comment in the source.
\<close>

function mainLoop ::
  "filesystem \<Rightarrow> string list \<Rightarrow> nat \<Rightarrow> Driver \<Rightarrow> (outcome + Driver) option" where
  "mainLoop fs argv i d =
     (if \<not> i < length argv then Some (Inr d)
      else if argv ! i = ''-o'' then
        (if i + 1 < length argv then mainLoop fs argv (i + 2) (d\<lparr>pOut := Some (argv ! (i + 1))\<rparr>)
         else Some (Inl NullArgument))
      else if argv ! i = ''-textseg'' then
        (if i + 1 < length argv then
           mainLoop fs argv (i + 1)
             (d\<lparr>startAddr := (case fst (extract_u64 16 (Some (argv ! (i + 1)))) of
                                 None \<Rightarrow> startAddr d | Some v \<Rightarrow> v)\<rparr>)
         else Some (Inl NullArgument))
      else if argv ! i = ''-L'' then mainLoop fs argv (i + 2) d
      else if starts_with ''-L'' (argv ! i) then mainLoop fs argv (i + 1) d
      else if argv ! i = ''--start-group'' \<or> argv ! i = ''-('' then
        mainLoop fs argv (i + 1) (d\<lparr>startGroup := Some (i + 1)\<rparr>)
      else if argv ! i = ''--end-group'' \<or> argv ! i = ''-)'' then
        (case startGroup d of
           None \<Rightarrow> Some (Inl GroupError)
         | Some g \<Rightarrow>
             (case groupLoop fs (take (i - g) (drop g argv)) (objectFile d) of
                None \<Rightarrow> None
              | Some (Inl e) \<Rightarrow> Some (Inl (failure e))
              | Some (Inr obj) \<Rightarrow> mainLoop fs argv (i + 1) (d\<lparr>objectFile := obj\<rparr>)))
      else
        (case addLibOrObject fs (argv ! i) False (objectFile d) of
           None \<Rightarrow> None
         | Some (Inl e) \<Rightarrow> Some (Inl (failure e))
         | Some (Inr (r, obj)) \<Rightarrow> mainLoop fs argv (i + 1) (d\<lparr>objectFile := obj\<rparr>)))"
  by pat_completeness auto
termination
  by (relation "measure (\<lambda>(fs, argv, i, d). length argv - i)") auto

declare mainLoop.simps [simp del]

text \<open>
  \<^verbatim>\<open>main\<close>, with the value of \<^verbatim>\<open>ULM_LIBRARY_PATH\<close>, the files that exist, and the
  arguments after the command name: first the two passes over the arguments, then the
  test that no group is left open, \<^verbatim>\<open>link()\<close> and the output.
\<close>

definition processArguments ::
  "string option \<Rightarrow> filesystem \<Rightarrow> string list \<Rightarrow> (outcome + Driver) option" where
  "processArguments env fs argv =
     (if length argv < 1 then Some (Inl Usage)
      else (case collectL argv (libpath (ObjectFile_init env)) of
              None \<Rightarrow> Some (Inl Usage)
            | Some lp \<Rightarrow>
                mainLoop fs argv 0
                  \<lparr>pOut = None, startAddr = 0, startGroup = None,
                   objectFile = (ObjectFile_init env)\<lparr>libpath := lp\<rparr>\<rparr>))"

definition main :: "string option \<Rightarrow> filesystem \<Rightarrow> string list \<Rightarrow> outcome option" where
  "main env fs argv =
     (case processArguments env fs argv of
        None \<Rightarrow> None
      | Some (Inl out) \<Rightarrow> Some out
      | Some (Inr d) \<Rightarrow>
          if startGroup d \<noteq> None then Some GroupError
          else (case link (objectFile d) of
                  None \<Rightarrow> None
                | Some (Inl e) \<Rightarrow> Some (failure e)
                | Some (Inr obj) \<Rightarrow>
                    Some (Linked (case pOut d of None \<Rightarrow> ''a.out'' | Some f \<Rightarrow> f) obj)))"

section \<open>Predicates and inputs of the properties\<close>

subsection \<open>Invariants\<close>

text \<open>No identifier of a symbol table starts with a dot.\<close>

definition dotless :: "(string \<times> 'v) list \<Rightarrow> bool" where
  "dotless m = (\<forall>i\<in>set (map fst m). take 1 i \<noteq> ''.'')"

text \<open>
  The keys of the store are the offsets \<open>0, 1, ...\<close> up to its size. The size is taken
  as the number of entries, which a \<^verbatim>\<open>std::map\<close> over 64-bit keys cannot push beyond
  \<open>2 ^ 64\<close>.
\<close>

definition dense :: "(u64 \<times> byte) list \<Rightarrow> bool" where
  "dense m = (map fst m = map of_nat [0..<length m] \<and> length m \<le> 2 ^ 64)"

definition contiguous :: "Segment \<Rightarrow> bool" where
  "contiguous s = dense (memory s)"

text \<open>The store of \<open>s'\<close> is contiguous and not smaller than the store of \<open>s\<close>.\<close>

definition grows :: "Segment \<Rightarrow> Segment \<Rightarrow> bool" where
  "grows s s' = (contiguous s' \<and> length (memory s) \<le> length (memory s'))"

subsection \<open>Sequences of segment operations\<close>

text \<open>
  The operations on a segment that the parser uses, and a sequence of them run on a
  segment. A string of bytes is inserted only where \<^verbatim>\<open>requiresAdvanceTo\<close> does not hold;
  \<^verbatim>\<open>readSegments\<close> throws otherwise.
\<close>

datatype segop =
    AppendByte byte
  | AdvanceTo u64
  | SetAlignment u64
  | InsertByteString u64 string

definition run_op :: "segop \<Rightarrow> Segment \<Rightarrow> Segment result" where
  "run_op opn s =
     (case opn of
        AppendByte b \<Rightarrow> ok (appendByte b s)
      | AdvanceTo a \<Rightarrow> advanceTo a s
      | SetAlignment a \<Rightarrow> setAlignment a s
      | InsertByteString a hexDigits \<Rightarrow>
          if requiresAdvanceTo a s then throw (GapInSegment 0)
          else insertByteString a hexDigits s)"

fun run_ops :: "segop list \<Rightarrow> Segment \<Rightarrow> Segment result" where
  "run_ops [] s = ok s"
| "run_ops (opn # rest) s = bindR (run_op opn s) (run_ops rest)"

definition parse_ops :: "segop list" where
  "parse_ops = [AppendByte 1, SetAlignment 4, InsertByteString 2 ''AABBCCDD'', AdvanceTo 8]"

subsection \<open>Archives\<close>

text \<open>The named members of an archive, in the order of the file.\<close>

fun regular_members :: "ar_entry list \<Rightarrow> directory" where
  "regular_members [] = []"
| "regular_members (StringTable # es) = regular_members es"
| "regular_members (Member name body # es) =
     (if length name = 0 then regular_members es else (name, body) # regular_members es)"

text \<open>
  An archive without index that lists \<^verbatim>\<open>b.o\<close>, with the text byte \<open>BB\<close>, before
  \<^verbatim>\<open>a.o\<close>, with the text byte \<open>AA\<close>.
\<close>

definition lib_a :: "ar_entry list" where
  "lib_a = [Member ''b.o'' [''#TEXT'', ''BB''], Member ''a.o'' [''#TEXT'', ''AA'']]"





subsection \<open>Objects and fixups\<close>

text \<open>An object file with the four text bytes \<^verbatim>\<open>00112233\<close> at address 0.\<close>

definition s1_o :: "string list" where
  "s1_o = [''#TEXT'', ''0x0000000000000000: 00112233'']"

text \<open>
  A fixup of kind \<^verbatim>\<open>w1\<close> over two bytes at address 0 of the text segment, an object
  whose table gives its target \<open>S\<close> the absolute value \<open>0xDEADBEEFCAFEBABE\<close>, and an
  object file that holds both.
\<close>

definition w1_entry :: FixEntry where
  "w1_entry = \<lparr>fx_segment = ''text'', fx_kind = ''w1'', fx_addr = 0, fx_offset = 0,
               fx_numBytes = 2, fx_displace = 0\<rparr>"

definition w1_object :: ObjectFile where
  "w1_object = (ObjectFile_init None)\<lparr>symTab := [(''S'', (CHR ''A'', 0xDEADBEEFCAFEBABE))]\<rparr>"

definition w1_o :: "string list" where
  "w1_o = [''#TEXT'', ''00000000'', ''#SYMTAB'', ''A S 0xDEADBEEFCAFEBABE'',
           ''#FIXUPS'', ''text 0x0 0 16 w1 S'']"

text \<open>
  The \<open>n\<close> bytes that a segment holds from address \<open>a\<close> on, lowest address first, and
  the two's-complement encoding of an integer in \<open>n\<close> bytes, most significant byte
  first.
\<close>

definition readField :: "Segment \<Rightarrow> u64 \<Rightarrow> nat \<Rightarrow> byte option list" where
  "readField s a n = map (\<lambda>k. map_of (memory s) (a - baseAddr s + of_nat k)) [0..<n]"

definition twosComplement :: "nat \<Rightarrow> int \<Rightarrow> byte list" where
  "twosComplement n q = map (\<lambda>k. word_of_int (q div 2 ^ (8 * (n - 1 - k)))) [0..<n]"

text \<open>
  The keys of \<^verbatim>\<open>memory\<close> that \<^verbatim>\<open>patchBytes\<close> writes for a fixup, each with the index
  of its segment: \<^verbatim>\<open>addr + offset - baseAddr + i\<close> for \<open>i < numBytes\<close>.
\<close>

definition fixField :: "u64 \<Rightarrow> u64 \<Rightarrow> ObjectFile \<Rightarrow> FixEntry \<Rightarrow> (nat \<times> u64) list" where
  "fixField textAddr dataAddr obj fixEntry =
     (case fixSite textAddr dataAddr fixEntry of
        Inl e \<Rightarrow> []
      | Inr (a, seg) \<Rightarrow>
          map (\<lambda>k. (seg, a + fx_offset fixEntry - baseAddr (segments obj seg) + of_nat k))
            [0..<unat (fx_numBytes fixEntry)])"

text \<open>
  A fixup of kind \<^verbatim>\<open>relative\<close> over the three bytes behind address 8 of the text
  segment, a fixup of kind \<^verbatim>\<open>w0\<close> over the bytes 6 and 7 that is applied after it, and
  an object of twelve text bytes that holds both and whose table gives their target
  \<open>f\<close> the absolute value \<open>v\<close>.
\<close>

definition jump_entry :: FixEntry where
  "jump_entry = \<lparr>fx_segment = ''text'', fx_kind = ''relative'', fx_addr = 8, fx_offset = 1,
                 fx_numBytes = 3, fx_displace = 0\<rparr>"

definition half_entry :: FixEntry where
  "half_entry = \<lparr>fx_segment = ''text'', fx_kind = ''w0'', fx_addr = 4, fx_offset = 2,
                 fx_numBytes = 2, fx_displace = 0\<rparr>"

definition jump_object :: "u64 \<Rightarrow> ObjectFile" where
  "jump_object v =
     (ObjectFile_init None)
       \<lparr>segments := (\<lambda>i. Segment_init)
                      (0 := Segment_init\<lparr>memory := map (\<lambda>k. (of_nat k, 0)) [0..<12]\<rparr>),
        symTab := [(''f'', (CHR ''A'', v))],
        fixables := [(''f'', [jump_entry, half_entry])]\<rparr>"

text \<open>
  An object file of sixteen text bytes with the symbol \<open>f\<close> at address 0 and a fixup
  of kind \<^verbatim>\<open>relative\<close> to \<open>f\<close> over the eight bytes at address 8.
\<close>

definition wide_o :: "string list" where
  "wide_o = [''#TEXT'', ''00000000000000000000000000000000'', ''#SYMTAB'', ''T f 0x0'',
             ''#FIXUPS'', ''text 0x8 0 64 relative f'']"

text \<open>An object whose global table defines \<open>f\<close>.\<close>

definition dup_object :: ObjectFile where
  "dup_object = (ObjectFile_init None)\<lparr>symTab := [(''f'', (CHR ''T'', 0))]\<rparr>"

section \<open>Properties of the containers and of results\<close>

lemma map_of_map_assign:
  "map_of (map_assign k v m) = (map_of m)(k \<mapsto> v)"
  by (induction m) (auto simp: fun_eq_iff)

lemma keys_map_assign:
  "fst ` set (map_assign k v m) = insert k (fst ` set m)"
proof (induction m)
  case Nil
  show ?case by simp
next
  case (Cons x m)
  obtain a b where x: "x = (a, b)" by (cases x)
  show ?case using Cons.IH by (simp add: x insert_commute)
qed

lemma map_ok_map_assign: "map_ok m \<Longrightarrow> map_ok (map_assign k v m)"
proof (induction m)
  case Nil
  show ?case by (simp add: map_ok_def)
next
  case (Cons x m)
  obtain a b where x: "x = (a, b)" by (cases x)
  have ok: "map_ok m" using Cons.prems by (simp add: map_ok_def)
  have IH: "map_ok (map_assign k v m)" using Cons.IH ok by simp
  show ?case
    using Cons.prems IH keys_map_assign [of k v m]
    by (auto simp: x map_ok_def)
qed

lemma set_map_assign_new:
  "k \<notin> fst ` set m \<Longrightarrow> set (map_assign k v m) = insert (k, v) (set m)"
  by (induction m) (auto split: if_splits)

lemma length_map_assign_new:
  "k \<notin> fst ` set m \<Longrightarrow> length (map_assign k v m) = Suc (length m)"
  by (induction m) (auto split: if_splits)

lemma map_count_keys: "map_count m k \<longleftrightarrow> k \<in> fst ` set m"
  by (simp add: map_count_def map_of_eq_None_iff)

lemma bindR_ok_iff:
  "bindR m f = Some (Inr y) \<longleftrightarrow> (\<exists>x. m = Some (Inr x) \<and> f x = Some (Inr y))"
  by (auto simp: bindR_def split: option.splits sum.splits)

lemma sum_case_ok:
  "(case x of Inl e \<Rightarrow> throw e | Inr y \<Rightarrow> ok (g y)) = Some (Inr z) \<longleftrightarrow> (\<exists>y. x = Inr y \<and> z = g y)"
  by (cases x) (auto simp: ok_def throw_def)

section \<open>patchBytes\<close>

lemma patchLoop_other:
  "(\<And>j. j < n \<Longrightarrow> a + of_nat j \<noteq> k) \<Longrightarrow> map_of (patchLoop n a v mem) k = map_of mem k"
  by (induction n arbitrary: v mem) (auto simp: map_of_map_assign)

lemma patchLoop_at:
  "k < n \<Longrightarrow> n \<le> 2 ^ 64 \<Longrightarrow>
   map_of (patchLoop n a v mem) (a + of_nat k) =
     Some (ucast (drop_bit (8 * (n - 1 - k)) v AND 0xFF))"
proof (induction n arbitrary: v mem)
  case 0
  then show ?case by simp
next
  case (Suc i)
  show ?case
  proof (cases "k = i")
    case True
    have "map_of (patchLoop i a (drop_bit 8 v)
            (map_assign (a + of_nat i) (ucast (v AND 0xFF)) mem)) (a + of_nat i)
        = map_of (map_assign (a + of_nat i) (ucast (v AND 0xFF)) mem) (a + of_nat i)"
      using Suc.prems
      by (intro patchLoop_other) (simp add: word_of_nat_eq_iff take_bit_nat_eq_self)
    then show ?thesis using True by (simp add: map_of_map_assign)
  next
    case False
    then have k: "k < i" using Suc.prems by simp
    have "8 * (i - 1 - k) + 8 = 8 * (i - k)" using k by simp
    then show ?thesis using Suc.IH [OF k, of "drop_bit 8 v"] Suc.prems k
      by (simp add: drop_bit_drop_bit add.commute)
  qed
qed

lemma patchBytes_at:
  assumes "k < unat n"
  shows "map_of (memory (patchBytes a n v s)) (a - baseAddr s + of_nat k) =
           Some (ucast (drop_bit (8 * (unat n - 1 - k)) v AND 0xFF))"
proof -
  have "unat n \<le> 2 ^ 64"
    using unsigned_less [of n, where ?'a = nat] by simp
  with assms show ?thesis
    by (simp add: patchBytes_def patchLoop_at)
qed

text \<open>
  C1, as the code has it. \<^verbatim>\<open>patchBytes(addr, numBytes, value)\<close> stores the bytes of
  \<open>value\<close> most significant first: the byte at offset \<open>addr - baseAddr + k\<close> is
  \<open>(value >> 8 * (numBytes - 1 - k)) & 0xFF\<close>, so the least significant byte lands at
  the highest offset of the range (big-endian order), for every \<open>k < numBytes\<close>.
\<close>

theorem patchBytes_most_significant_first:
  assumes "k < unat numBytes"
  shows "map_of (memory (patchBytes addr numBytes val s)) (addr - baseAddr s + of_nat k) =
           Some (ucast (drop_bit (8 * (unat numBytes - 1 - k)) val AND 0xFF))"
  using assms by (rule patchBytes_at)

theorem patchBytes_most_significant_first_witness:
  "(0::nat) < unat (2::u64) \<and>
   map_of (memory (patchBytes 0 2 0x1234 (Segment_init\<lparr>memory := [(0, 0), (1, 0)]\<rparr>))) 0 =
     Some 0x12"
  using patchBytes_most_significant_first
    [of 0 2 0 "0x1234" "Segment_init\<lparr>memory := [(0, 0), (1, 0)]\<rparr>"]
  by (simp add: Segment_init_def)

text \<open>
  The little-endian reading of C1 fails: after \<^verbatim>\<open>patchBytes(0, 2, 0x1234)\<close> the lowest
  offset holds \<open>0x12\<close>, not the least significant byte \<open>0x34\<close>.
\<close>

theorem patchBytes_little_endian_counterexample:
  "map_of (memory (patchBytes 0 2 0x1234 (Segment_init\<lparr>memory := [(0, 0), (1, 0)]\<rparr>))) 0 \<noteq>
     Some (ucast (drop_bit (8 * 0) (0x1234 :: u64) AND 0xFF))"
  by code_simp

section \<open>The start address of the text segment\<close>

text \<open>
  Nothing that reads an input changes the base address of a segment, and \<^verbatim>\<open>link()\<close>
  sets the base addresses of the data and bss segments only.
\<close>

lemma advanceLoop_baseAddr:
  assumes "advanceLoop a s = Some s'"
  shows "baseAddr s' = baseAddr s"
proof (rule advanceLoop.raw_induct [where P = "\<lambda>a s s'. baseAddr s' = baseAddr s", OF _ assms])
  fix f a s s'
  assume IH: "\<And>a s s'. f a s = Some s' \<Longrightarrow> baseAddr s' = baseAddr s"
     and step: "(if size_seg s < a then f a (appendByte (fill s) s) else Some s) = Some s'"
  show "baseAddr s' = baseAddr s"
  proof (cases "size_seg s < a")
    case True
    then have "f a (appendByte (fill s) s) = Some s'" using step by simp
    from IH [OF this] show ?thesis by (simp add: appendByte_def)
  next
    case False
    then show ?thesis using step by simp
  qed
qed

lemma advanceTo_baseAddr:
  "advanceTo a s = Some (Inr s') \<Longrightarrow> baseAddr s' = baseAddr s"
  using advanceLoop_baseAddr [of "a - baseAddr s" s]
  by (auto simp: advanceTo_def Let_def ok_def throw_def split: if_splits option.splits)

lemma setAlignment_baseAddr:
  "setAlignment a s = Some (Inr s') \<Longrightarrow> baseAddr s' = baseAddr s"
  by (auto simp: setAlignment_def Let_def throw_def dest!: advanceTo_baseAddr split: if_splits)

lemma insertByteString_baseAddr:
  "insertByteString a h s = Some (Inr s') \<Longrightarrow> baseAddr s' = baseAddr s"
  by (auto simp: insertByteString_def Let_def bindR_ok_iff ok_def throw_def
           dest!: advanceTo_baseAddr split: if_splits sum.splits)

lemma segmentDirective_baseAddr:
  "segmentDirective seg line src obj = Some (Inr obj') \<Longrightarrow>
   baseAddr (segments obj' k) = baseAddr (segments obj k)"
  by (auto simp: segmentDirective_def bindR_ok_iff ok_def throw_def Let_def setMark_def
           dest!: setAlignment_baseAddr split: if_splits option.splits)

lemma bssDirective_baseAddr:
  "bssDirective line src obj = Some (Inr obj') \<Longrightarrow>
   baseAddr (segments obj' k) = baseAddr (segments obj k)"
  by (auto simp: bssDirective_def bindR_ok_iff ok_def throw_def Let_def setMark_def
           dest!: setAlignment_baseAddr advanceTo_baseAddr
           split: if_splits prod.splits option.splits)

lemma byteLine_baseAddr:
  "byteLine seg line src base obj = Some (Inr (base', obj')) \<Longrightarrow>
   baseAddr (segments obj' k) = baseAddr (segments obj k)"
  by (auto simp: byteLine_def bindR_ok_iff ok_def throw_def Let_def
           dest!: insertByteString_baseAddr split: if_splits prod.splits option.splits)

lemma symtabLine_segments:
  "symtabLine line src obj = Some (Inr obj') \<Longrightarrow> segments obj' = segments obj"
  by (auto simp: symtabLine_def ok_def throw_def Let_def
           split: if_splits prod.splits option.splits)

lemma fixupLine_segments:
  "fixupLine line src obj = Some (Inr obj') \<Longrightarrow> segments obj' = segments obj"
  by (auto simp: fixupLine_def ok_def throw_def Let_def
           split: if_splits prod.splits option.splits)

lemma readLine_baseAddr:
  assumes "readLine line src (seg, base, obj) = Some (Inr (seg', base', obj'))"
  shows "baseAddr (segments obj' k) = baseAddr (segments obj k)"
  using assms
  by (auto simp: readLine_def bindR_ok_iff ok_def
           dest: segmentDirective_baseAddr bssDirective_baseAddr byteLine_baseAddr
                 symtabLine_segments fixupLine_segments
           split: if_splits)

lemma readLines_baseAddr:
  "readLines ls src st = Some (Inr obj') \<Longrightarrow>
   baseAddr (segments obj' k) = baseAddr (segments (snd (snd st)) k)"
proof (induction ls arbitrary: st)
  case Nil
  then show ?case by (simp add: ok_def)
next
  case (Cons l ls)
  from Cons.prems obtain st1 where
    st1: "readLine l src st = Some (Inr st1)" and rest: "readLines ls src st1 = Some (Inr obj')"
    by (auto simp: bindR_ok_iff)
  obtain seg base obj where st: "st = (seg, base, obj)" by (cases st)
  obtain seg1 base1 obj1 where s1: "st1 = (seg1, base1, obj1)" by (cases st1)
  show ?case
    using Cons.IH [OF rest] readLine_baseAddr [of l src seg base obj seg1 base1 obj1 k]
      st1 st s1 by simp
qed

lemma readSegments_baseAddr:
  assumes "readSegments inp src obj = Some (Inr obj')"
  shows "baseAddr (segments obj' k) = baseAddr (segments obj k)"
proof -
  from assms obtain ls where "readLines ls src (- 1, 0, obj) = Some (Inr obj')"
    by (auto simp: readSegments_def throw_def split: option.splits if_splits)
  from readLines_baseAddr [OF this, of k] show ?thesis by simp
qed

lemma readMembers_baseAddr:
  "readMembers ms file obj = Some (Inr obj') \<Longrightarrow>
   baseAddr (segments obj' k) = baseAddr (segments obj k)"
proof (induction ms arbitrary: obj)
  case Nil
  then show ?case by (simp add: ok_def)
next
  case (Cons m ms)
  obtain name body where m: "m = (name, body)" by (cases m)
  from Cons.prems obtain obj1 where
    a: "readSegments (Some body) (file @ ''('' @ name @ '')'') obj = Some (Inr obj1)" and
    b: "readMembers ms file obj1 = Some (Inr obj')"
    by (auto simp: m bindR_ok_iff)
  show ?case using Cons.IH [OF b] readSegments_baseAddr [OF a, of k] by simp
qed

lemma indexLoop_baseAddr:
  assumes "indexLoop members path index resolved obj = Some (Inr (r, obj'))"
  shows "baseAddr (segments obj' k) = baseAddr (segments obj k)"
proof -
  have "case Inr (r, obj') of
          Inl (e :: error) \<Rightarrow> True
        | Inr (r, obj') \<Rightarrow> baseAddr (segments obj' k) = baseAddr (segments obj k)"
  proof (rule indexLoop.raw_induct
      [where P = "\<lambda>(ms :: directory) (fl :: string) (idx :: string list) (n :: nat) ob
                    (res :: error + nat \<times> ObjectFile).
                   case res of
                     Inl e \<Rightarrow> True
                   | Inr (r, obj') \<Rightarrow> baseAddr (segments obj' k) = baseAddr (segments ob k)",
       OF _ assms])
    fix f ms fl idx n ob and res :: "error + nat \<times> ObjectFile"
    assume IH: "\<And>ms fl idx n ob res. f ms fl idx n ob = Some res \<Longrightarrow>
                  (case res of
                     Inl e \<Rightarrow> True
                   | Inr (r, obj') \<Rightarrow> baseAddr (segments obj' k) = baseAddr (segments ob k))"
       and step: "(case readSymtabIndex idx ob of
                     None \<Rightarrow> Some (Inr (n, ob))
                   | Some member \<Rightarrow>
                       (case readSegments (map_of ms member) (fl @ ''('' @ member @ '')'') ob of
                          None \<Rightarrow> None
                        | Some (Inl e) \<Rightarrow> Some (Inl e)
                        | Some (Inr obj') \<Rightarrow> f ms fl idx 1 obj')) = Some res"
    show "case res of
            Inl e \<Rightarrow> True
          | Inr (r, obj') \<Rightarrow> baseAddr (segments obj' k) = baseAddr (segments ob k)"
    proof (cases "readSymtabIndex idx ob")
      case None
      then show ?thesis using step by auto
    next
      case (Some member)
      note ix = this
      show ?thesis
      proof (cases "readSegments (map_of ms member) (fl @ ''('' @ member @ '')'') ob")
        case None
        then show ?thesis using step ix by simp
      next
        case (Some x)
        note rs = this
        show ?thesis
        proof (cases x)
          case (Inl e)
          then show ?thesis using step rs ix by auto
        next
          case (Inr obj1)
          then have "f ms fl idx 1 obj1 = Some res"
            using step rs ix by simp
          from IH [OF this]
          have "case res of
                  Inl e \<Rightarrow> True
                | Inr (r, obj') \<Rightarrow> baseAddr (segments obj' k) = baseAddr (segments obj1 k)" .
          moreover have "baseAddr (segments obj1 k) = baseAddr (segments ob k)"
            using readSegments_baseAddr [of "map_of ms member" _ ob obj1 k] rs Inr by simp
          ultimately show ?thesis by (simp split: sum.splits prod.splits)
        qed
      qed
    qed
  qed
  then show ?thesis by simp
qed

lemma addLibOrObject_baseAddr:
  assumes "addLibOrObject fs a onlyLibs obj = Some (Inr (r, obj'))"
  shows "baseAddr (segments obj' k) = baseAddr (segments obj k)"
  using assms
  by (auto simp: addLibOrObject_def Let_def bindR_ok_iff ok_def throw_def
           dest: readSegments_baseAddr readMembers_baseAddr indexLoop_baseAddr
           split: if_splits prod.splits option.splits)

lemma groupSweep_baseAddr:
  "groupSweep fs args n obj = Some (Inr (r, obj')) \<Longrightarrow>
   baseAddr (segments obj' k) = baseAddr (segments obj k)"
proof (induction args arbitrary: n obj)
  case Nil
  then show ?case by (simp add: ok_def)
next
  case (Cons a args)
  from Cons.prems obtain r1 obj1 where
    a: "addLibOrObject fs a True obj = Some (Inr (r1, obj1))" and
    b: "groupSweep fs args (n + (if r1 > 0 then 1 else 0)) obj1 = Some (Inr (r, obj'))"
    by (auto simp: bindR_ok_iff)
  show ?case using Cons.IH [OF b] addLibOrObject_baseAddr [OF a, of k] by simp
qed

lemma groupLoop_baseAddr:
  assumes "groupLoop fs args obj = Some (Inr obj')"
  shows "baseAddr (segments obj' k) = baseAddr (segments obj k)"
proof -
  have "case Inr obj' of
          Inl (e :: error) \<Rightarrow> True
        | Inr obj' \<Rightarrow> baseAddr (segments obj' k) = baseAddr (segments obj k)"
  proof (rule groupLoop.raw_induct
      [where P = "\<lambda>(fs0 :: filesystem) (args0 :: string list) ob (res :: error + ObjectFile).
                   case res of
                     Inl e \<Rightarrow> True
                   | Inr obj' \<Rightarrow> baseAddr (segments obj' k) = baseAddr (segments ob k)",
       OF _ assms])
    fix f fs0 args0 ob and res :: "error + ObjectFile"
    assume IH: "\<And>fs0 args0 ob res. f fs0 args0 ob = Some res \<Longrightarrow>
                  (case res of
                     Inl e \<Rightarrow> True
                   | Inr obj' \<Rightarrow> baseAddr (segments obj' k) = baseAddr (segments ob k))"
       and step: "(case groupSweep fs0 args0 0 ob of
                     None \<Rightarrow> None
                   | Some (Inl e) \<Rightarrow> Some (Inl e)
                   | Some (Inr (resolved, obj')) \<Rightarrow>
                       if resolved = 0 then Some (Inr obj') else f fs0 args0 obj') = Some res"
    show "case res of
            Inl e \<Rightarrow> True
          | Inr obj' \<Rightarrow> baseAddr (segments obj' k) = baseAddr (segments ob k)"
    proof (cases "groupSweep fs0 args0 0 ob")
      case None
      then show ?thesis using step by simp
    next
      case (Some x)
      note sw = this
      show ?thesis
      proof (cases x)
        case (Inl e)
        then show ?thesis using step sw by auto
      next
        case (Inr y)
        obtain n obj1 where y: "y = (n, obj1)" by (cases y)
        have b1: "baseAddr (segments obj1 k) = baseAddr (segments ob k)"
          using groupSweep_baseAddr [of fs0 args0 0 ob n obj1 k] sw Inr y by simp
        show ?thesis
        proof (cases "n = 0")
          case True
          then show ?thesis using step sw Inr y b1 by auto
        next
          case False
          then have "f fs0 args0 obj1 = Some res" using step sw Inr y by simp
          from IH [OF this]
          have "case res of
                  Inl e \<Rightarrow> True
                | Inr obj' \<Rightarrow> baseAddr (segments obj' k) = baseAddr (segments obj1 k)" .
          then show ?thesis using b1 by (simp split: sum.splits)
        qed
      qed
    qed
  qed
  then show ?thesis by simp
qed

lemma failure_not_Linked: "failure e \<noteq> Linked f obj"
  by (simp add: failure_def)

text \<open>
  The loop over the arguments: when it ends normally the base addresses are the ones it
  started with, and it never ends with a linked object.
\<close>

lemma mainLoop_baseAddr:
  "mainLoop fs argv i d = Some res \<Longrightarrow>
   (case res of
      Inl out \<Rightarrow> (\<forall>f obj. out \<noteq> Linked f obj)
    | Inr d' \<Rightarrow> baseAddr (segments (objectFile d') k) = baseAddr (segments (objectFile d) k))"
proof (induction fs argv i d rule: mainLoop.induct)
  case (1 fs argv i d)
  note step = "1.prems" [unfolded mainLoop.simps [of fs argv i d]]
  show ?case
  proof (cases "i < length argv")
    case False
    then show ?thesis using step by auto
  next
    case True
    note lt = this
    have lt': "\<not> \<not> i < length argv" using lt by simp
    consider (o) "argv ! i = ''-o''"
      | (t) "argv ! i \<noteq> ''-o''" "argv ! i = ''-textseg''"
      | (L) "argv ! i \<noteq> ''-o''" "argv ! i \<noteq> ''-textseg''" "argv ! i = ''-L''"
      | (L2) "argv ! i \<noteq> ''-o''" "argv ! i \<noteq> ''-textseg''" "argv ! i \<noteq> ''-L''"
             "starts_with ''-L'' (argv ! i)"
      | (sg) "argv ! i \<noteq> ''-o''" "argv ! i \<noteq> ''-textseg''" "argv ! i \<noteq> ''-L''"
             "\<not> starts_with ''-L'' (argv ! i)" "argv ! i = ''--start-group'' \<or> argv ! i = ''-(''"
      | (eg) "argv ! i \<noteq> ''-o''" "argv ! i \<noteq> ''-textseg''" "argv ! i \<noteq> ''-L''"
             "\<not> starts_with ''-L'' (argv ! i)"
             "\<not> (argv ! i = ''--start-group'' \<or> argv ! i = ''-('')"
             "argv ! i = ''--end-group'' \<or> argv ! i = ''-)''"
      | (other) "argv ! i \<noteq> ''-o''" "argv ! i \<noteq> ''-textseg''" "argv ! i \<noteq> ''-L''"
             "\<not> starts_with ''-L'' (argv ! i)"
             "\<not> (argv ! i = ''--start-group'' \<or> argv ! i = ''-('')"
             "\<not> (argv ! i = ''--end-group'' \<or> argv ! i = ''-)'')"
      by blast
    then show ?thesis
    proof cases
      case o
      show ?thesis
      proof (cases "i + 1 < length argv")
        case True
        then have "mainLoop fs argv (i + 2) (d\<lparr>pOut := Some (argv ! (i + 1))\<rparr>) = Some res"
          using step lt o by simp
        from "1.IH"(1) [OF lt' o True this] show ?thesis by (simp split: sum.splits)
      next
        case False
        then show ?thesis using step lt o by auto
      qed
    next
      case t
      show ?thesis
      proof (cases "i + 1 < length argv")
        case True
        then have "mainLoop fs argv (i + 1)
             (d\<lparr>startAddr := (case fst (extract_u64 16 (Some (argv ! (i + 1)))) of
                                 None \<Rightarrow> startAddr d | Some v \<Rightarrow> v)\<rparr>) = Some res"
          using step lt t by simp
        from "1.IH"(2) [OF lt' t True this] show ?thesis by (simp split: sum.splits)
      next
        case False
        then show ?thesis using step lt t by auto
      qed
    next
      case L
      then have "mainLoop fs argv (i + 2) d = Some res"
        using step lt by simp
      from "1.IH"(3) [OF lt' L this] show ?thesis .
    next
      case L2
      then have "mainLoop fs argv (i + 1) d = Some res"
        using step lt by simp
      from "1.IH"(4) [OF lt' L2 this] show ?thesis .
    next
      case sg
      then have "mainLoop fs argv (i + 1) (d\<lparr>startGroup := Some (i + 1)\<rparr>) = Some res"
        using step lt by simp
      from "1.IH"(5) [OF lt' sg this] show ?thesis by (simp split: sum.splits)
    next
      case eg
      have e: "(case startGroup d of
           None \<Rightarrow> Some (Inl GroupError)
         | Some g \<Rightarrow>
             (case groupLoop fs (take (i - g) (drop g argv)) (objectFile d) of
                None \<Rightarrow> None
              | Some (Inl e) \<Rightarrow> Some (Inl (failure e))
              | Some (Inr obj) \<Rightarrow> mainLoop fs argv (i + 1) (d\<lparr>objectFile := obj\<rparr>))) =
           Some res"
        using step lt eg by simp
      show ?thesis
      proof (cases "startGroup d")
        case None
        then show ?thesis using e by auto
      next
        case (Some g)
        note g = this
        from e g obtain x where
          x: "groupLoop fs (take (i - g) (drop g argv)) (objectFile d) = Some x"
          by (cases "groupLoop fs (take (i - g) (drop g argv)) (objectFile d)") auto
        show ?thesis
        proof (cases x)
          case (Inl err)
          then show ?thesis using e g x by (auto simp: failure_not_Linked)
        next
          case (Inr obj1)
          note o1 = this
          have rest: "mainLoop fs argv (i + 1) (d\<lparr>objectFile := obj1\<rparr>) = Some res"
            using e g x o1 by simp
          have b1: "baseAddr (segments obj1 k) = baseAddr (segments (objectFile d) k)"
            using groupLoop_baseAddr [of fs _ "objectFile d" obj1 k] x o1 by simp
          from "1.IH"(6) [OF lt' eg g x o1 rest] b1 show ?thesis
            by (simp split: sum.splits)
        qed
      qed
    next
      case other
      have e: "(case addLibOrObject fs (argv ! i) False (objectFile d) of
           None \<Rightarrow> None
         | Some (Inl e) \<Rightarrow> Some (Inl (failure e))
         | Some (Inr (r, obj)) \<Rightarrow> mainLoop fs argv (i + 1) (d\<lparr>objectFile := obj\<rparr>)) =
           Some res"
        using step lt other by simp
      then obtain x where
        x: "addLibOrObject fs (argv ! i) False (objectFile d) = Some x"
        by (cases "addLibOrObject fs (argv ! i) False (objectFile d)") auto
      show ?thesis
      proof (cases x)
        case (Inl err)
        then show ?thesis using e x by (auto simp: failure_not_Linked)
      next
        case (Inr y)
        note y = this
        obtain r obj1 where ro: "(r, obj1) = y" by (cases y) auto
        have rest: "mainLoop fs argv (i + 1) (d\<lparr>objectFile := obj1\<rparr>) = Some res"
          using e x y ro by auto
        have b1: "baseAddr (segments obj1 k) = baseAddr (segments (objectFile d) k)"
          using addLibOrObject_baseAddr [of fs "argv ! i" False "objectFile d" r obj1 k] x y ro
          by simp
        from "1.IH"(7) [OF lt' other x y ro rest] b1 show ?thesis
          by (simp split: sum.splits)
      qed
    qed
  qed
qed

lemma processArguments_baseAddr:
  assumes "processArguments env fs argv = Some res"
  shows "case res of
           Inl out \<Rightarrow> (\<forall>f obj. out \<noteq> Linked f obj)
         | Inr d \<Rightarrow> baseAddr (segments (objectFile d) k) = 0"
proof (cases "length argv < 1")
  case True
  then show ?thesis using assms by (auto simp: processArguments_def)
next
  case False
  show ?thesis
  proof (cases "collectL argv (libpath (ObjectFile_init env))")
    case None
    then show ?thesis using assms False by (auto simp: processArguments_def)
  next
    case (Some lp)
    then have "mainLoop fs argv 0
                  \<lparr>pOut = None, startAddr = 0, startGroup = None,
                   objectFile = (ObjectFile_init env)\<lparr>libpath := lp\<rparr>\<rparr> = Some res"
      using assms False by (simp add: processArguments_def)
    from mainLoop_baseAddr [OF this, of k] show ?thesis
      by (simp add: ObjectFile_init_def Segment_init_def split: sum.splits)
  qed
qed

lemma applyFix_baseAddr:
  "applyFix t d b ident fe st = Inr st' \<Longrightarrow>
   baseAddr (segments st' k) = baseAddr (segments st k)"
  by (auto simp: applyFix_def patchBytes_def split: sum.splits prod.splits)

lemma applyFixes_baseAddr:
  "applyFixes t d b ident fes st = Inr st' \<Longrightarrow>
   baseAddr (segments st' k) = baseAddr (segments st k)"
  by (induction fes arbitrary: st) (auto split: sum.splits dest: applyFix_baseAddr)

lemma resolveFixables_baseAddr:
  "resolveFixables t d b fx st = Inr st' \<Longrightarrow>
   baseAddr (segments st' k) = baseAddr (segments st k)"
  by (induction fx arbitrary: st) (auto split: sum.splits dest: applyFixes_baseAddr)

lemma place_text_baseAddr:
  assumes "place obj = Some (Inr (t, d, b, obj1))"
  shows "baseAddr (segments obj1 0) = baseAddr (segments obj 0)"
  using assms
  by (auto simp: place_def Let_def bindR_ok_iff sum_case_ok dest!: advanceTo_baseAddr)

lemma link_text_baseAddr:
  assumes "link obj = Some (Inr obj')"
  shows "baseAddr (segments obj' 0) = baseAddr (segments obj 0)"
proof -
  from assms obtain t d b obj1 where
    p: "place obj = Some (Inr (t, d, b, obj1))" and
    r: "resolveFixables t d b (fixables obj1) obj1 = Inr obj'"
    by (auto simp: link_def bindR_ok_iff sum_case_ok [where g = "\<lambda>x. x"])
  from resolveFixables_baseAddr [OF r, of 0] place_text_baseAddr [OF p]
  show ?thesis by simp
qed

text \<open>
  Whatever the arguments, \<^verbatim>\<open>-textseg\<close> among them or not: an object that \<^verbatim>\<open>main\<close>
  links has its text segment at address 0.
\<close>

lemma main_text_base:
  assumes "main env fs argv = Some (Linked f obj)"
  shows "baseAddr (segments obj 0) = 0"
proof (cases "processArguments env fs argv")
  case None
  then show ?thesis using assms by (simp add: main_def)
next
  case (Some res)
  note pa = processArguments_baseAddr [OF Some, of 0]
  show ?thesis
  proof (cases res)
    case (Inl out)
    then show ?thesis using assms Some pa by (auto simp: main_def)
  next
    case (Inr d)
    then have l: "(case link (objectFile d) of
                  None \<Rightarrow> None
                | Some (Inl e) \<Rightarrow> Some (failure e)
                | Some (Inr obj) \<Rightarrow>
                    Some (Linked (case pOut d of None \<Rightarrow> ''a.out'' | Some f \<Rightarrow> f) obj)) =
              Some (Linked f obj)"
      using assms Some by (auto simp: main_def split: if_splits)
    then obtain x where x: "link (objectFile d) = Some x"
      by (cases "link (objectFile d)") auto
    show ?thesis
    proof (cases x)
      case (Inl e)
      then show ?thesis using l x by (simp add: failure_not_Linked)
    next
      case (Inr obj2)
      then have "obj2 = obj" using l x by simp
      then show ?thesis using link_text_baseAddr [of "objectFile d" obj2] x Inr pa \<open>res = Inr d\<close>
        by simp
    qed
  qed
qed

text \<open>
  C2 at the input of the claim, \<^verbatim>\<open>-textseg 1000 a.o\<close>, where \<^verbatim>\<open>a.o\<close> holds the four text
  bytes \<^verbatim>\<open>00112233\<close> at address 0. The loop of \<^verbatim>\<open>main\<close> reads \<^verbatim>\<open>1000\<close> into
  \<^verbatim>\<open>startAddr\<close>, does not step over it and takes it for the name of an input file next,
  so the link ends with the exception "can not open 1000". Where a file of that name
  exists (here an object file that is empty but for a comment), the link succeeds with
  the text segment at address 0: \<^verbatim>\<open>startAddr\<close> is never handed to the segment.
\<close>

theorem textseg_option_not_applied:
  "(case main None [(''a.o'', Text s1_o)] [''-textseg'', ''1000'', ''a.o''] of
      Some (Caught e) \<Rightarrow> e = CanNotOpen ''1000''
    | _ \<Rightarrow> False) \<and>
   (case main None [(''a.o'', Text s1_o), (''1000'', Text [''#''])]
           [''-textseg'', ''1000'', ''a.o''] of
      Some (Linked f obj) \<Rightarrow> baseAddr (segments obj 0) = 0 \<and> size_seg (segments obj 0) = 4
    | _ \<Rightarrow> False)"
  by code_simp

section \<open>Fixups of kind w1\<close>

text \<open>
  C3, as the code has it. A fixup of kind \<^verbatim>\<open>w1\<close> with \<open>numBytes = 2\<close>, \<open>offset = 0\<close> and
  displacement 0 whose target symbol has the value \<open>0xDEADBEEFCAFEBABE\<close> stores bits 16
  to 31 of the value, \<open>0xCAFE\<close>, most significant byte first: the two bytes at the site
  become \<open>CA FE\<close>.
\<close>

theorem w1_fixup_stores_CA_FE:
  assumes kind: "fx_kind fe = ''w1''" and num: "fx_numBytes fe = 2" and off: "fx_offset fe = 0"
      and disp: "fx_displace fe = 0"
      and site: "fixSite textAddr dataAddr fe = Inr (site, seg)"
      and ident: "ident \<noteq> ''[text]''" "ident \<noteq> ''[data]''" "ident \<noteq> ''[bss]''"
      and sym: "map_of (symTab obj) ident = Some (k, 0xDEADBEEFCAFEBABE)"
  shows "\<exists>obj'. applyFix textAddr dataAddr bssAddr ident fe obj = Inr obj' \<and>
           map_of (memory (segments obj' seg)) (site - baseAddr (segments obj seg)) = Some 0xCA \<and>
           map_of (memory (segments obj' seg)) (site - baseAddr (segments obj seg) + 1) = Some 0xFE"
proof -
  let ?s = "patchBytes site 2 0xCAFE (segments obj seg)"
  have tgt: "fixTarget textAddr dataAddr bssAddr ident fe obj = Inr 0xDEADBEEFCAFEBABE"
    using ident sym disp by (simp add: fixTarget_def)
  have val: "fixValue (fx_kind fe) 0xDEADBEEFCAFEBABE site = Inr 0xCAFE"
    using kind by (simp add: fixValue_def)
  have app: "applyFix textAddr dataAddr bssAddr ident fe obj =
               Inr (obj\<lparr>segments := (segments obj)(seg := ?s)\<rparr>)"
    using site tgt val num off by (simp add: applyFix_def)
  have b0: "map_of (memory ?s) (site - baseAddr (segments obj seg) + of_nat 0) = Some 0xCA"
    by (subst patchBytes_at) simp_all
  have b1: "map_of (memory ?s) (site - baseAddr (segments obj seg) + of_nat 1) = Some 0xFE"
    by (subst patchBytes_at) simp_all
  show ?thesis using app b0 b1 by simp
qed

theorem w1_fixup_stores_CA_FE_witness:
  "fx_kind w1_entry = ''w1'' \<and> fx_numBytes w1_entry = 2 \<and> fx_offset w1_entry = 0 \<and>
   fx_displace w1_entry = 0 \<and> fixSite 0 0 w1_entry = Inr (0, 0) \<and>
   map_of (symTab w1_object) ''S'' = Some (CHR ''A'', 0xDEADBEEFCAFEBABE) \<and>
   (\<exists>obj'. applyFix 0 0 0 ''S'' w1_entry w1_object = Inr obj' \<and>
      map_of (memory (segments obj' 0)) 0 = Some 0xCA \<and>
      map_of (memory (segments obj' 0)) 1 = Some 0xFE)"
  using w1_fixup_stores_CA_FE [of w1_entry 0 0 0 0 "''S''" w1_object "CHR ''A''" 0]
  by (simp add: w1_entry_def w1_object_def fixSite_def ObjectFile_init_def Segment_init_def)

text \<open>
  The bytes \<open>EF BE\<close> of C3 do not appear: linking the object \<open>w1_o\<close>, whose only fixup
  is the one of the claim at address 0 of the text segment, leaves \<open>CA FE\<close> there.
\<close>

theorem w1_fixup_EF_BE_counterexample:
  "(case main None [(''w1.o'', Text w1_o)] [''w1.o''] of
      Some (Linked f obj) \<Rightarrow>
        map (map_of (memory (segments obj 0))) [0, 1] = [Some 0xCA, Some 0xFE] \<and>
        map (map_of (memory (segments obj 0))) [0, 1] \<noteq> [Some 0xEF, Some 0xBE]
    | _ \<Rightarrow> False)"
  by code_simp

section \<open>The bit counts of a fixup\<close>

text \<open>
  C5 at a fixup line whose \<open>numBytes\<close> field is 12 bits: the line is accepted and the
  fixup is recorded with \<open>numBytes = 1\<close>. The source asserts \<^verbatim>\<open>numBytes % 4 == 0\<close>
  before it divides by 8, where it asserts \<^verbatim>\<open>offset % 8 == 0\<close> for the offset.
\<close>

theorem fixup_numBytes_rounded:
  "(case fixupLine ''text 0x0 0 12 w0 foo'' ''a.o'' (ObjectFile_init None) of
      Some (Inr obj) \<Rightarrow>
        fixables obj =
          [(''foo'', [\<lparr>fx_segment = ''text'', fx_kind = ''w0'', fx_addr = 0, fx_offset = 0,
                       fx_numBytes = 1, fx_displace = 0\<rparr>])]
    | _ \<Rightarrow> False)"
  by code_simp

section \<open>Fixups of kind relative\<close>

lemma applyFix_symTab:
  "applyFix t d b ident fe st = Inr st' \<Longrightarrow> symTab st' = symTab st"
  by (auto simp: applyFix_def split: sum.splits prod.splits)

lemma applyFixes_symTab:
  "applyFixes t d b ident fes st = Inr st' \<Longrightarrow> symTab st' = symTab st"
  by (induction fes arbitrary: st) (auto split: sum.splits dest: applyFix_symTab)

lemma fixTarget_symTab:
  "symTab st = symTab st0 \<Longrightarrow> fixTarget t d b ident fe st = fixTarget t d b ident fe st0"
  by (simp add: fixTarget_def)

text \<open>
  The quotient of a relative fixup is an unsigned one, \<open>x div 4\<close> for the difference
  \<open>x\<close> taken modulo \<open>2 ^ 64\<close>. Its low 62 bits are those of the signed quotient of
  \<open>x\<close> read as two's complement: each of its seven low bytes is the byte of the signed
  quotient, and every byte is when \<open>x\<close> is not negative.
\<close>

lemma quotient_byte_signed:
  fixes x :: u64
  assumes "j < 7 \<or> 0 \<le> sint x"
  shows "(ucast (drop_bit (8 * j) (x div 4) AND 0xFF) :: byte) =
           word_of_int (sint x div 4 div 2 ^ (8 * j))"
proof -
  have a: "x div 4 = drop_bit 2 x"
    by (simp add: drop_bit_eq_div)
  have b: "sint x div 4 div 2 ^ (8 * j) = drop_bit (8 * j) (drop_bit 2 (sint x))"
    by (simp add: drop_bit_eq_div)
  have m: "(0xFF :: u64) = mask 8"
    by (simp add: mask_eq_exp_minus_1)
  have top: "\<not> bit x 63" if "0 \<le> sint x"
    using that bit_last_iff [of x] by simp
  have s: "bit (sint x) i \<longleftrightarrow> bit x i" if "i < 63 \<or> \<not> bit x 63" for i
    using that by (auto simp: bit_sint_iff)
  have l: "bit (ucast (drop_bit (8 * j) (drop_bit 2 x) AND mask 8) :: byte) n \<longleftrightarrow>
             n < 8 \<and> bit x (8 * j + 2 + n)" for n
    by (auto simp: bit_simps add.commute add.left_commute)
  have r: "bit (word_of_int (drop_bit (8 * j) (drop_bit 2 (sint x))) :: byte) n \<longleftrightarrow>
             n < 8 \<and> bit (sint x) (8 * j + 2 + n)" for n
    by (auto simp: bit_word_of_int_iff bit_drop_bit_eq add.commute add.left_commute)
  have "bit (ucast (drop_bit (8 * j) (drop_bit 2 x) AND mask 8) :: byte) n =
        bit (word_of_int (drop_bit (8 * j) (drop_bit 2 (sint x))) :: byte) n" for n
  proof (cases "n < 8")
    case False
    then show ?thesis unfolding l r by simp
  next
    case True
    have "8 * j + 2 + n < 63 \<or> \<not> bit x 63"
    proof (cases "0 \<le> sint x")
      case True
      then show ?thesis using top by simp
    next
      case False
      then have "j < 7" using assms by simp
      then have "8 * j + 2 + n < 63" using \<open>n < 8\<close> by linarith
      then show ?thesis by simp
    qed
    from s [OF this] show ?thesis unfolding l r by simp
  qed
  then show ?thesis
    unfolding a b m by (rule bit_eqI)
qed

lemma applyFixes_append:
  "applyFixes t d b ident (xs @ ys) st =
     (case applyFixes t d b ident xs st of
        Inl e \<Rightarrow> Inl e
      | Inr st1 \<Rightarrow> applyFixes t d b ident ys st1)"
  by (induction xs arbitrary: st) (auto split: sum.splits)

lemma resolveFixables_append:
  "resolveFixables t d b (xs @ ys) st =
     (case resolveFixables t d b xs st of
        Inl e \<Rightarrow> Inl e
      | Inr st1 \<Rightarrow> resolveFixables t d b ys st1)"
  by (induction xs arbitrary: st) (auto split: sum.splits)

lemma resolveFixables_symTab:
  "resolveFixables t d b fx st = Inr st' \<Longrightarrow> symTab st' = symTab st"
  by (induction fx arbitrary: st) (auto split: sum.splits dest: applyFixes_symTab)

lemma applyFix_relative:
  assumes "fx_kind fe = ''relative''" and "fixSite t d fe = Inr (site, seg)"
      and "fixTarget t d b ident fe st = Inr V"
  shows "applyFix t d b ident fe st =
           (if (V - site) mod 4 \<noteq> 0 then Inl RelativeNotMultipleOf4
            else Inr (st\<lparr>segments := (segments st)
                        (seg := patchBytes (site + fx_offset fe) (fx_numBytes fe)
                                  ((V - site) div 4) (segments st seg))\<rparr>))"
  using assms by (simp add: applyFix_def fixValue_def)

lemma readField_patchBytes:
  "readField (patchBytes a n v s) a (unat n) =
     map (\<lambda>k. Some (ucast (drop_bit (8 * (unat n - 1 - k)) v AND 0xFF))) [0..<unat n]"
proof -
  have "baseAddr (patchBytes a n v s) = baseAddr s"
    by (simp add: patchBytes_def)
  then show ?thesis
    by (simp add: readField_def patchBytes_at)
qed

lemma readField_relative:
  assumes "unat n \<le> 7 \<or> 0 \<le> sint x"
  shows "readField (patchBytes a n (x div 4) s) a (unat n) =
           map Some (twosComplement (unat n) (sint x div 4))"
proof -
  have "(ucast (drop_bit (8 * (unat n - 1 - k)) (x div 4) AND 0xFF) :: byte) =
          word_of_int (sint x div 4 div 2 ^ (8 * (unat n - 1 - k)))" if "k < unat n" for k
  proof (rule quotient_byte_signed)
    show "unat n - 1 - k < 7 \<or> 0 \<le> sint x" using assms that by auto
  qed
  then show ?thesis
    unfolding readField_patchBytes twosComplement_def by simp
qed

lemma readField_cong:
  assumes "baseAddr s' = baseAddr s"
      and "\<And>k. k < n \<Longrightarrow> map_of (memory s') (a - baseAddr s + of_nat k) =
                              map_of (memory s) (a - baseAddr s + of_nat k)"
  shows "readField s' a n = readField s a n"
  using assms by (simp add: readField_def)

lemma fixField_cong:
  "(\<And>n. baseAddr (segments st n) = baseAddr (segments st0 n)) \<Longrightarrow>
   fixField t d st fe = fixField t d st0 fe"
  by (simp add: fixField_def split: sum.splits prod.splits)

text \<open>
  A fixup changes no byte outside its field, so the bytes of a field stay as they are
  while the later fixups patch other fields.
\<close>

lemma applyFix_other:
  assumes "applyFix t d b ident fe st = Inr st'" and "(n, key) \<notin> set (fixField t d st fe)"
  shows "map_of (memory (segments st' n)) key = map_of (memory (segments st n)) key"
proof -
  from assms(1) obtain a seg v where
    site: "fixSite t d fe = Inr (a, seg)" and
    st': "st' = st\<lparr>segments := (segments st)
                   (seg := patchBytes (a + fx_offset fe) (fx_numBytes fe) v (segments st seg))\<rparr>"
    by (auto simp: applyFix_def split: sum.splits prod.splits)
  show ?thesis
  proof (cases "n = seg")
    case False
    then show ?thesis using st' by simp
  next
    case True
    have "a + fx_offset fe - baseAddr (segments st seg) + of_nat j \<noteq> key"
      if "j < unat (fx_numBytes fe)" for j
      using assms(2) that site True by (auto simp: fixField_def)
    then show ?thesis
      using st' True by (simp add: patchBytes_def patchLoop_other)
  qed
qed

lemma applyFixes_other:
  assumes "applyFixes t d b ident fes st = Inr st'"
      and "\<And>fe. fe \<in> set fes \<Longrightarrow> (n, key) \<notin> set (fixField t d st fe)"
  shows "map_of (memory (segments st' n)) key = map_of (memory (segments st n)) key"
  using assms
proof (induction fes arbitrary: st)
  case Nil
  then show ?case by simp
next
  case (Cons x xs)
  from Cons.prems(1) obtain st1 where
    x: "applyFix t d b ident x st = Inr st1" and xs: "applyFixes t d b ident xs st1 = Inr st'"
    by (auto split: sum.splits)
  have c: "fixField t d st1 fe = fixField t d st fe" for fe
    by (rule fixField_cong) (rule applyFix_baseAddr [OF x])
  have "map_of (memory (segments st' n)) key = map_of (memory (segments st1 n)) key"
    using Cons.IH [OF xs] Cons.prems(2) c by simp
  moreover have "map_of (memory (segments st1 n)) key = map_of (memory (segments st n)) key"
    using applyFix_other [OF x] Cons.prems(2) by simp
  ultimately show ?case by simp
qed

lemma resolveFixables_other:
  assumes "resolveFixables t d b fx st = Inr st'"
      and "\<And>fe. fe \<in> set (concat (map snd fx)) \<Longrightarrow> (n, key) \<notin> set (fixField t d st fe)"
  shows "map_of (memory (segments st' n)) key = map_of (memory (segments st n)) key"
  using assms
proof (induction fx arbitrary: st)
  case Nil
  then show ?case by simp
next
  case (Cons x xs)
  obtain i fes where p: "x = (i, fes)" by (cases x)
  from Cons.prems(1) obtain st1 where
    x: "applyFixes t d b i fes st = Inr st1" and xs: "resolveFixables t d b xs st1 = Inr st'"
    by (auto simp: p split: sum.splits)
  have c: "fixField t d st1 fe = fixField t d st fe" for fe
    by (rule fixField_cong) (rule applyFixes_baseAddr [OF x])
  have "map_of (memory (segments st' n)) key = map_of (memory (segments st1 n)) key"
    using Cons.IH [OF xs] Cons.prems(2) c by simp
  moreover have "map_of (memory (segments st1 n)) key = map_of (memory (segments st n)) key"
    using applyFixes_other [OF x] Cons.prems(2) p by simp
  ultimately show ?case by simp
qed

lemma fixField_member:
  assumes "fixSite t d fe = Inr (site, seg)" and "k < unat (fx_numBytes fe)"
  shows "(seg, site + fx_offset fe - baseAddr (segments st seg) + of_nat k) \<in>
           set (fixField t d st fe)"
  using assms by (simp add: fixField_def)

lemma applyFix_relative_field:
  assumes kind: "fx_kind fe = ''relative''"
      and site: "fixSite t d fe = Inr (site, seg)"
      and tgt: "fixTarget t d b ident fe obj1 = Inr V"
      and mult: "(V - site) mod 4 = 0"
      and fits: "unat (fx_numBytes fe) \<le> 7 \<or> 0 \<le> sint (V - site)"
      and st: "symTab st = symTab obj1"
  shows "\<exists>st'. applyFix t d b ident fe st = Inr st' \<and>
           readField (segments st' seg) (site + fx_offset fe) (unat (fx_numBytes fe)) =
             map Some (twosComplement (unat (fx_numBytes fe)) (sint (V - site) div 4))"
proof -
  have "fixTarget t d b ident fe st = Inr V"
    using tgt fixTarget_symTab [OF st, of t d b ident fe] by simp
  from applyFix_relative [OF kind site this] mult
  have "applyFix t d b ident fe st =
          Inr (st\<lparr>segments := (segments st)
                 (seg := patchBytes (site + fx_offset fe) (fx_numBytes fe)
                           ((V - site) div 4) (segments st seg))\<rparr>)"
    by simp
  then show ?thesis
    using readField_relative [OF fits] by simp
qed

text \<open>
  C4, as the code has it. Let a fixup of kind \<^verbatim>\<open>relative\<close> be recorded in an object
  that \<^verbatim>\<open>link()\<close> has placed, with \<open>site\<close> the base address of its segment plus its
  address and \<open>V\<close> the value of its target (symbol value or segment address, plus
  displacement); the difference \<open>V - site\<close> is a \<^verbatim>\<open>std::uint64_t\<close>, read as a number
  in two's complement. If \<open>(V - site) % 4 \<noteq> 0\<close> then \<^verbatim>\<open>link()\<close> ends with an
  exception. Otherwise, when the field has at most 7 bytes or the difference is not
  negative, the \<open>numBytes\<close> bytes at \<open>site + offset\<close> hold the two's-complement
  encoding of the displacement in words \<open>(V - site) / 4\<close>, most significant byte
  first: after the body of the loop has run for the fixup, in whatever state of the
  segments it found, and in the object that \<^verbatim>\<open>link()\<close> returns, provided no fixup
  applied later patches a byte of the field.
\<close>

theorem relative_fixup:
  assumes pl: "place obj = ok (textAddr, dataAddr, bssAddr, obj1)"
      and fx: "fixables obj1 = pre @ (ident, fes1 @ fe # fes2) # post"
      and kind: "fx_kind fe = ''relative''"
      and site: "fixSite textAddr dataAddr fe = Inr (site, seg)"
      and tgt: "fixTarget textAddr dataAddr bssAddr ident fe obj1 = Inr V"
  shows "if (V - site) mod 4 \<noteq> 0 then \<exists>e. link obj = throw e
         else unat (fx_numBytes fe) \<le> 7 \<or> 0 \<le> sint (V - site) \<longrightarrow>
           (\<forall>st. symTab st = symTab obj1 \<longrightarrow>
              (\<exists>st'. applyFix textAddr dataAddr bssAddr ident fe st = Inr st' \<and>
                 readField (segments st' seg) (site + fx_offset fe) (unat (fx_numBytes fe)) =
                   map Some (twosComplement (unat (fx_numBytes fe)) (sint (V - site) div 4)))) \<and>
           ((\<forall>fe'\<in>set (fes2 @ concat (map snd post)).
               set (fixField textAddr dataAddr obj1 fe') \<inter>
               set (fixField textAddr dataAddr obj1 fe) = {}) \<longrightarrow>
            (\<forall>obj2. link obj = ok obj2 \<longrightarrow>
               readField (segments obj2 seg) (site + fx_offset fe) (unat (fx_numBytes fe)) =
                 map Some (twosComplement (unat (fx_numBytes fe)) (sint (V - site) div 4))))"
proof (cases "(V - site) mod 4 = 0")
  case False
  let ?R = "resolveFixables textAddr dataAddr bssAddr"
  let ?A = "applyFixes textAddr dataAddr bssAddr ident"
  have "\<exists>e'. ?R (fixables obj1) obj1 = Inl e'"
  proof (cases "?R pre obj1")
    case (Inl e)
    then show ?thesis by (simp add: fx resolveFixables_append)
  next
    case (Inr sa)
    have sa: "symTab sa = symTab obj1" by (rule resolveFixables_symTab [OF Inr])
    show ?thesis
    proof (cases "?A fes1 sa")
      case (Inl e)
      then show ?thesis using Inr by (simp add: fx resolveFixables_append applyFixes_append)
    next
      case (Inr sb)
      have sb: "symTab sb = symTab obj1" using applyFixes_symTab [OF Inr] sa by simp
      have "fixTarget textAddr dataAddr bssAddr ident fe sb = Inr V"
        using tgt fixTarget_symTab [OF sb, of textAddr dataAddr bssAddr ident fe] by simp
      from applyFix_relative [OF kind site this] False
      have "applyFix textAddr dataAddr bssAddr ident fe sb = Inl RelativeNotMultipleOf4"
        by simp
      then show ?thesis
        using Inr \<open>?R pre obj1 = Inr sa\<close>
        by (simp add: fx resolveFixables_append applyFixes_append)
    qed
  qed
  then obtain e' where "?R (fixables obj1) obj1 = Inl e'" ..
  then have "link obj = throw e'"
    using pl by (simp add: link_def bindR_def ok_def throw_def)
  then have "\<exists>e. link obj = throw e" ..
  then show ?thesis using False by simp
next
  case True
  let ?n = "unat (fx_numBytes fe)"
  let ?a = "site + fx_offset fe"
  let ?enc = "map Some (twosComplement ?n (sint (V - site) div 4))"
  let ?R = "resolveFixables textAddr dataAddr bssAddr"
  let ?A = "applyFixes textAddr dataAddr bssAddr ident"
  have "readField (segments obj2 seg) ?a ?n = ?enc"
    if fits: "?n \<le> 7 \<or> 0 \<le> sint (V - site)"
      and apart: "\<forall>fe'\<in>set (fes2 @ concat (map snd post)).
                    set (fixField textAddr dataAddr obj1 fe') \<inter>
                    set (fixField textAddr dataAddr obj1 fe) = {}"
      and l: "link obj = ok obj2" for obj2
  proof -
    have r: "?R (fixables obj1) obj1 = Inr obj2"
      using l pl by (auto simp: link_def bindR_def ok_def throw_def split: sum.splits)
    then obtain sa sd where
      sa: "?R pre obj1 = Inr sa" and
      sd: "?A (fes1 @ fe # fes2) sa = Inr sd" and
      post: "?R post sd = Inr obj2"
      by (auto simp: fx resolveFixables_append split: sum.splits)
    from sd obtain sb sc where
      sb: "?A fes1 sa = Inr sb" and
      sc: "applyFix textAddr dataAddr bssAddr ident fe sb = Inr sc" and
      fes2: "?A fes2 sc = Inr sd"
      by (auto simp: applyFixes_append split: sum.splits)
    have symb: "symTab sb = symTab obj1"
      using resolveFixables_symTab [OF sa] applyFixes_symTab [OF sb] by simp
    have base_sc: "baseAddr (segments sc k) = baseAddr (segments obj1 k)" for k
      using resolveFixables_baseAddr [OF sa, of k] applyFixes_baseAddr [OF sb, of k]
        applyFix_baseAddr [OF sc, of k] by simp
    have base_sd: "baseAddr (segments sd k) = baseAddr (segments obj1 k)" for k
      using applyFixes_baseAddr [OF fes2, of k] base_sc by simp
    have base_2: "baseAddr (segments obj2 k) = baseAddr (segments obj1 k)" for k
      using resolveFixables_baseAddr [OF post, of k] base_sd by simp
    from applyFix_relative_field [OF kind site tgt True fits symb] sc
    have field: "readField (segments sc seg) ?a ?n = ?enc" by simp
    have keep: "map_of (memory (segments obj2 seg)) (?a - baseAddr (segments sc seg) + of_nat k) =
                map_of (memory (segments sc seg)) (?a - baseAddr (segments sc seg) + of_nat k)"
      if k: "k < ?n" for k
    proof -
      let ?key = "?a - baseAddr (segments sc seg) + of_nat k"
      have mem: "(seg, ?key) \<in> set (fixField textAddr dataAddr obj1 fe)"
        using fixField_member [OF site k, of obj1] base_sc by simp
      have out: "(seg, ?key) \<notin> set (fixField textAddr dataAddr obj1 fe')"
        if "fe' \<in> set (fes2 @ concat (map snd post))" for fe'
        using apart that mem by blast
      have c1: "fixField textAddr dataAddr sc fe' = fixField textAddr dataAddr obj1 fe'" for fe'
        by (rule fixField_cong) (rule base_sc)
      have c2: "fixField textAddr dataAddr sd fe' = fixField textAddr dataAddr obj1 fe'" for fe'
        by (rule fixField_cong) (rule base_sd)
      have "map_of (memory (segments sd seg)) ?key = map_of (memory (segments sc seg)) ?key"
        by (rule applyFixes_other [OF fes2]) (simp add: c1 out)
      moreover have "map_of (memory (segments obj2 seg)) ?key =
                     map_of (memory (segments sd seg)) ?key"
        by (rule resolveFixables_other [OF post]) (simp add: c2 out)
      ultimately show ?thesis by simp
    qed
    have "readField (segments obj2 seg) ?a ?n = readField (segments sc seg) ?a ?n"
    proof (rule readField_cong)
      show "baseAddr (segments obj2 seg) = baseAddr (segments sc seg)"
        by (simp add: base_2 base_sc)
    next
      fix k assume "k < ?n"
      from keep [OF this]
      show "map_of (memory (segments obj2 seg)) (?a - baseAddr (segments sc seg) + of_nat k) =
            map_of (memory (segments sc seg)) (?a - baseAddr (segments sc seg) + of_nat k)" .
    qed
    then show ?thesis using field by simp
  qed
  note after_link = this
  have "?n \<le> 7 \<or> 0 \<le> sint (V - site) \<longrightarrow>
           (\<forall>st. symTab st = symTab obj1 \<longrightarrow>
              (\<exists>st'. applyFix textAddr dataAddr bssAddr ident fe st = Inr st' \<and>
                 readField (segments st' seg) ?a ?n = ?enc)) \<and>
           ((\<forall>fe'\<in>set (fes2 @ concat (map snd post)).
               set (fixField textAddr dataAddr obj1 fe') \<inter>
               set (fixField textAddr dataAddr obj1 fe) = {}) \<longrightarrow>
            (\<forall>obj2. link obj = ok obj2 \<longrightarrow> readField (segments obj2 seg) ?a ?n = ?enc))"
  proof (intro impI conjI allI)
    fix st :: ObjectFile
    assume "?n \<le> 7 \<or> 0 \<le> sint (V - site)" and "symTab st = symTab obj1"
    then show "\<exists>st'. applyFix textAddr dataAddr bssAddr ident fe st = Inr st' \<and>
                 readField (segments st' seg) ?a ?n = ?enc"
      by (rule applyFix_relative_field [OF kind site tgt True])
  next
    fix obj2 :: ObjectFile
    assume "?n \<le> 7 \<or> 0 \<le> sint (V - site)"
      and "\<forall>fe'\<in>set (fes2 @ concat (map snd post)).
               set (fixField textAddr dataAddr obj1 fe') \<inter>
               set (fixField textAddr dataAddr obj1 fe) = {}"
      and "link obj = ok obj2"
    then show "readField (segments obj2 seg) ?a ?n = ?enc"
      by (rule after_link)
  qed
  then show ?thesis using True by simp
qed

theorem relative_fixup_witness:
  "(\<exists>t d b obj1.
      place (jump_object 0) = ok (t, d, b, obj1) \<and>
      fixables obj1 = [] @ (''f'', [] @ jump_entry # [half_entry]) # [] \<and>
      fx_kind jump_entry = ''relative'' \<and> fixSite t d jump_entry = Inr (8, 0) \<and>
      fixTarget t d b ''f'' jump_entry obj1 = Inr 0 \<and> (0 - 8 :: u64) mod 4 = 0 \<and>
      unat (fx_numBytes jump_entry) \<le> 7 \<and>
      set (fixField t d obj1 half_entry) \<inter> set (fixField t d obj1 jump_entry) = {} \<and>
      (\<exists>st'. applyFix t d b ''f'' jump_entry obj1 = Inr st' \<and>
         readField (segments st' 0) 9 3 = [Some 0xFF, Some 0xFF, Some 0xFE]) \<and>
      (\<exists>obj2. link (jump_object 0) = ok obj2 \<and>
         readField (segments obj2 0) 9 3 = [Some 0xFF, Some 0xFF, Some 0xFE])) \<and>
   (\<exists>t d b obj1.
      place (jump_object 6) = ok (t, d, b, obj1) \<and>
      fixables obj1 = [] @ (''f'', [] @ jump_entry # [half_entry]) # [] \<and>
      fx_kind jump_entry = ''relative'' \<and> fixSite t d jump_entry = Inr (8, 0) \<and>
      fixTarget t d b ''f'' jump_entry obj1 = Inr 6 \<and> (6 - 8 :: u64) mod 4 \<noteq> 0 \<and>
      (\<exists>e. link (jump_object 6) = throw e))"
proof -
  have kind: "fx_kind jump_entry = ''relative''" by (simp add: jump_entry_def)
  have num: "unat (fx_numBytes jump_entry) = 3" "fx_offset jump_entry = 1"
    by (simp_all add: jump_entry_def)
  have enc: "map Some (twosComplement 3 (sint (0 - 8 :: u64) div 4)) =
               [Some 0xFF, Some 0xFF, Some 0xFE]"
    by code_simp
  have ev0: "case place (jump_object 0) of
              Some (Inr (t, d, b, obj1)) \<Rightarrow>
                fixables obj1 = [] @ (''f'', [] @ jump_entry # [half_entry]) # [] \<and>
                fixSite t d jump_entry = Inr (8, 0) \<and>
                fixTarget t d b ''f'' jump_entry obj1 = Inr 0 \<and>
                set (fixField t d obj1 half_entry) \<inter> set (fixField t d obj1 jump_entry) = {}
            | _ \<Rightarrow> False"
    by code_simp
  have ev6: "case place (jump_object 6) of
              Some (Inr (t, d, b, obj1)) \<Rightarrow>
                fixables obj1 = [] @ (''f'', [] @ jump_entry # [half_entry]) # [] \<and>
                fixSite t d jump_entry = Inr (8, 0) \<and>
                fixTarget t d b ''f'' jump_entry obj1 = Inr 6
            | _ \<Rightarrow> False"
    by code_simp
  have l0: "case link (jump_object 0) of Some (Inr obj2) \<Rightarrow> True | _ \<Rightarrow> False"
    by code_simp
  then obtain obj2 where l: "link (jump_object 0) = ok obj2"
    by (auto simp: ok_def split: option.splits sum.splits)
  from ev0 obtain t d b obj1 where a:
    "place (jump_object 0) = ok (t, d, b, obj1)"
    "fixables obj1 = [] @ (''f'', [] @ jump_entry # [half_entry]) # []"
    "fixSite t d jump_entry = Inr (8, 0)" "fixTarget t d b ''f'' jump_entry obj1 = Inr 0"
    "set (fixField t d obj1 half_entry) \<inter> set (fixField t d obj1 jump_entry) = {}"
    by (auto simp: ok_def split: option.splits sum.splits prod.splits)
  from ev6 obtain t' d' b' obj1' where b:
    "place (jump_object 6) = ok (t', d', b', obj1')"
    "fixables obj1' = [] @ (''f'', [] @ jump_entry # [half_entry]) # []"
    "fixSite t' d' jump_entry = Inr (8, 0)" "fixTarget t' d' b' ''f'' jump_entry obj1' = Inr 6"
    by (auto simp: ok_def split: option.splits sum.splits prod.splits)
  have m0: "(0 - 8 :: u64) mod 4 = 0" by simp
  have m6: "(6 - 8 :: u64) mod 4 \<noteq> 0" by simp
  note A = relative_fixup [OF a(1) a(2) kind a(3) a(4)]
  have A1: "\<exists>st'. applyFix t d b ''f'' jump_entry obj1 = Inr st' \<and>
              readField (segments st' 0) 9 3 = [Some 0xFF, Some 0xFF, Some 0xFE]"
    using A m0 num enc by simp
  have A2: "readField (segments obj2 0) 9 3 = [Some 0xFF, Some 0xFF, Some 0xFE]"
    using A m0 num enc a(5) l by simp
  have B: "\<exists>e. link (jump_object 6) = throw e"
    using relative_fixup [OF b(1) b(2) kind b(3) b(4)] m6 by simp
  have n7: "unat (fx_numBytes jump_entry) \<le> 7" using num by simp
  from A1 obtain st' where st':
    "applyFix t d b ''f'' jump_entry obj1 = Inr st'"
    "readField (segments st' 0) 9 3 = [Some 0xFF, Some 0xFF, Some 0xFE]"
    by blast
  from B obtain e where e: "link (jump_object 6) = throw e" ..
  show ?thesis
  proof (intro conjI exI)
    show "place (jump_object 0) = ok (t, d, b, obj1)" by (rule a(1))
    show "fixables obj1 = [] @ (''f'', [] @ jump_entry # [half_entry]) # []" by (rule a(2))
    show "fixSite t d jump_entry = Inr (8, 0)" by (rule a(3))
    show "fixTarget t d b ''f'' jump_entry obj1 = Inr 0" by (rule a(4))
    show "set (fixField t d obj1 half_entry) \<inter> set (fixField t d obj1 jump_entry) = {}"
      by (rule a(5))
    show "applyFix t d b ''f'' jump_entry obj1 = Inr st'" by (rule st'(1))
    show "readField (segments st' 0) 9 3 = [Some 0xFF, Some 0xFF, Some 0xFE]" by (rule st'(2))
    show "link (jump_object 0) = ok obj2" by (rule l)
    show "readField (segments obj2 0) 9 3 = [Some 0xFF, Some 0xFF, Some 0xFE]" by (rule A2)
    show "place (jump_object 6) = ok (t', d', b', obj1')" by (rule b(1))
    show "fixables obj1' = [] @ (''f'', [] @ jump_entry # [half_entry]) # []" by (rule b(2))
    show "fixSite t' d' jump_entry = Inr (8, 0)" by (rule b(3))
    show "fixTarget t' d' b' ''f'' jump_entry obj1' = Inr 6" by (rule b(4))
    show "link (jump_object 6) = throw e" by (rule e)
  qed (use kind n7 m0 m6 in simp_all)
qed

text \<open>
  The field of a relative fixup does not always hold \<open>(V - site) / 4\<close>. In the object
  \<open>wide_o\<close> the fixup is at address 8, its target \<open>f\<close> at address 0 and its field
  eight bytes wide. \<open>(0 - 8) / 4 = -2\<close> is \<open>FF FF FF FF FF FF FF FE\<close> in eight bytes;
  the linked object holds \<open>3F FF FF FF FF FF FF FE\<close>, the quotient of the unsigned
  difference \<open>2 ^ 64 - 8\<close>.
\<close>

theorem relative_fixup_wide_field_counterexample:
  "(case main None [(''wide.o'', Text wide_o)] [''wide.o''] of
      Some (Linked f obj) \<Rightarrow>
        readField (segments obj 0) 8 8 =
          map Some [0x3F, 0xFF, 0xFF, 0xFF, 0xFF, 0xFF, 0xFF, 0xFE] \<and>
        twosComplement 8 ((0 - 8) div 4) = [0xFF, 0xFF, 0xFF, 0xFF, 0xFF, 0xFF, 0xFF, 0xFE] \<and>
        readField (segments obj 0) 8 8 \<noteq> map Some (twosComplement 8 ((0 - 8) div 4))
    | _ \<Rightarrow> False)"
  by code_simp

section \<open>Multiple definitions\<close>

lemma segmentDirective_symTab:
  "segmentDirective seg line src obj = Some (Inr obj') \<Longrightarrow> symTab obj' = symTab obj"
  by (auto simp: segmentDirective_def bindR_ok_iff ok_def Let_def)

lemma bssDirective_symTab:
  "bssDirective line src obj = Some (Inr obj') \<Longrightarrow> symTab obj' = symTab obj"
  by (auto simp: bssDirective_def bindR_ok_iff ok_def throw_def Let_def
           split: if_splits prod.splits option.splits)

lemma byteLine_symTab:
  "byteLine seg line src base obj = Some (Inr (base', obj')) \<Longrightarrow> symTab obj' = symTab obj"
  by (auto simp: byteLine_def bindR_ok_iff ok_def throw_def Let_def
           split: if_splits prod.splits option.splits)

lemma fixupLine_symTab:
  "fixupLine line src obj = Some (Inr obj') \<Longrightarrow> symTab obj' = symTab obj"
  by (auto simp: fixupLine_def ok_def throw_def Let_def
           split: if_splits prod.splits option.splits)

lemma dotless_map_assign:
  "dotless (map_assign k v m) \<longleftrightarrow> take 1 k \<noteq> ''.'' \<and> dotless m"
  using keys_map_assign [of k v m] by (auto simp: dotless_def)

lemma symtabLine_keeps:
  assumes "symtabLine line src obj = Some (Inr obj')"
  shows "(map_of (symTab obj) i = Some e \<longrightarrow> map_of (symTab obj') i = Some e) \<and>
         (dotless (symTab obj) \<longrightarrow> dotless (symTab obj')) \<and>
         (map_ok (symTab obj) \<longrightarrow> map_ok (symTab obj'))"
  using assms
  by (cases e)
     (auto simp: symtabLine_def ok_def throw_def Let_def map_of_map_assign map_count_def
                 dotless_map_assign map_ok_map_assign
           split: if_splits prod.splits option.splits)

lemma readLine_keeps:
  assumes "readLine line src (seg, base, obj) = Some (Inr (seg', base', obj'))"
  shows "(map_of (symTab obj) i = Some e \<longrightarrow> map_of (symTab obj') i = Some e) \<and>
         (dotless (symTab obj) \<longrightarrow> dotless (symTab obj')) \<and>
         (map_ok (symTab obj) \<longrightarrow> map_ok (symTab obj'))"
proof -
  have "symTab obj' = symTab obj \<or> symtabLine line src obj = Some (Inr obj')"
    using assms
    by (auto simp: readLine_def bindR_ok_iff ok_def
             dest: segmentDirective_symTab bssDirective_symTab byteLine_symTab fixupLine_symTab
             split: if_splits)
  then show ?thesis
    using symtabLine_keeps [of line src obj obj' i e] by auto
qed

lemma readLines_keeps:
  assumes "readLines ls src st = Some (Inr obj')"
  shows "(map_of (symTab (snd (snd st))) i = Some e \<longrightarrow> map_of (symTab obj') i = Some e) \<and>
         (dotless (symTab (snd (snd st))) \<longrightarrow> dotless (symTab obj')) \<and>
         (map_ok (symTab (snd (snd st))) \<longrightarrow> map_ok (symTab obj'))"
  using assms
proof (induction ls arbitrary: st)
  case Nil
  then show ?case by (simp add: ok_def)
next
  case (Cons l ls)
  from Cons.prems obtain st1 where
    st1: "readLine l src st = Some (Inr st1)" and rest: "readLines ls src st1 = Some (Inr obj')"
    by (auto simp: bindR_ok_iff)
  obtain seg base obj where st: "st = (seg, base, obj)" by (cases st)
  obtain seg1 base1 obj1 where s1: "st1 = (seg1, base1, obj1)" by (cases st1)
  show ?case
    using Cons.IH [OF rest] readLine_keeps [of l src seg base obj seg1 base1 obj1 i e]
      st1 st s1 by auto
qed

lemma readSegments_keeps:
  assumes "readSegments inp src obj = Some (Inr obj')"
  shows "(map_of (symTab obj) i = Some e \<longrightarrow> map_of (symTab obj') i = Some e) \<and>
         (dotless (symTab obj) \<longrightarrow> dotless (symTab obj')) \<and>
         (map_ok (symTab obj) \<longrightarrow> map_ok (symTab obj'))"
proof -
  from assms obtain ls where "readLines ls src (- 1, 0, obj) = Some (Inr obj')"
    by (auto simp: readSegments_def throw_def split: option.splits if_splits)
  from readLines_keeps [OF this, of i e] show ?thesis by simp
qed

lemma starts_with_hash:
  "\<not> starts_with ''#'' line \<Longrightarrow>
   \<not> starts_with ''#TEXT'' line \<and> \<not> starts_with ''#DATA'' line \<and> \<not> starts_with ''#BSS'' line \<and>
   \<not> starts_with ''#SYMTAB'' line \<and> \<not> starts_with ''#FIXUPS'' line"
  by (cases line) (auto simp: starts_with_def)

lemma symtabLine_second_definition:
  assumes present: "map_of (symTab obj) ident = Some e" and inv: "dotless (symTab obj)"
      and k: "extract_char (Some line) = (Some kind, st1)"
      and i: "extract_string st1 = (Some ident, st2)"
      and v: "fst (extract_u64 16 st2) = Some v"
      and up: "toupper kind = kind" "kind \<noteq> CHR ''U''"
  shows "symtabLine line src obj = throw (MultipleDefinition ident)"
proof -
  have "ident \<in> fst ` set (symTab obj)"
    using present by (metis map_of_SomeD image_eqI fst_conv)
  then have dot: "take 1 ident \<noteq> ''.''"
    using inv by (auto simp: dotless_def)
  obtain st3 where v': "extract_u64 16 st2 = (Some v, st3)"
    using v by (cases "extract_u64 16 st2") simp
  have cnt: "map_count (symTab obj) ident"
    using present by (simp add: map_count_def)
  show ?thesis
    using k i v' up dot cnt by (simp add: symtabLine_def Let_def)
qed

text \<open>
  C8. Let \<open>ident\<close> be defined in the global table \<^verbatim>\<open>symTab\<close>, a table with one entry
  for each of its identifiers, none of them starting with a dot. A further line of a
  symbol table that defines \<open>ident\<close> with a kind that \<^verbatim>\<open>toupper\<close> leaves unchanged and
  that is not \<^verbatim>\<open>U\<close> (so \<^verbatim>\<open>T\<close>, \<^verbatim>\<open>D\<close>, \<^verbatim>\<open>B\<close>, \<^verbatim>\<open>A\<close>) ends the parse with the exception
  "multiple definition of ident". Whenever \<^verbatim>\<open>readSegments\<close> returns, the entry of
  \<open>ident\<close> is the one it was before, and the table still has one entry for each
  identifier and no identifier that starts with a dot.
\<close>

theorem multiple_definition:
  assumes present: "map_of (symTab obj) ident = Some e" and inv: "dotless (symTab obj)"
      and uniq: "map_ok (symTab obj)"
  shows "(extract_char (Some line) = (Some kind, st1) \<and> extract_string st1 = (Some ident, st2) \<and>
          fst (extract_u64 16 st2) = Some v \<and> toupper kind = kind \<and> kind \<noteq> CHR ''U'' \<and>
          \<not> starts_with ''#'' line \<longrightarrow>
            readLines (line # rest) src (3, base, obj) = throw (MultipleDefinition ident)) \<and>
         (readSegments inp src obj = ok obj' \<longrightarrow>
            map_of (symTab obj') ident = Some e \<and> dotless (symTab obj') \<and> map_ok (symTab obj'))"
proof (intro conjI impI)
  assume a: "extract_char (Some line) = (Some kind, st1) \<and> extract_string st1 = (Some ident, st2) \<and>
          fst (extract_u64 16 st2) = Some v \<and> toupper kind = kind \<and> kind \<noteq> CHR ''U'' \<and>
          \<not> starts_with ''#'' line"
  then have sl: "symtabLine line src obj = throw (MultipleDefinition ident)"
    using symtabLine_second_definition [OF present inv, of line kind st1 st2 v src] by simp
  have ne: "length line \<noteq> 0"
    using a by (auto simp: extract_char_def)
  have "readLine line src (3, base, obj) = throw (MultipleDefinition ident)"
    using a ne sl starts_with_hash [of line] by (simp add: readLine_def bindR_def throw_def)
  then show "readLines (line # rest) src (3, base, obj) = throw (MultipleDefinition ident)"
    by (simp add: bindR_def throw_def)
next
  assume "readSegments inp src obj = ok obj'"
  then have r: "readSegments inp src obj = Some (Inr obj')" by (simp add: ok_def)
  show "map_of (symTab obj') ident = Some e"
    using readSegments_keeps [OF r, of ident e] present by simp
  show "dotless (symTab obj')"
    using readSegments_keeps [OF r, of ident e] inv by simp
  show "map_ok (symTab obj')"
    using readSegments_keeps [OF r, of ident e] uniq by simp
qed

theorem multiple_definition_witness:
  "map_of (symTab dup_object) ''f'' = Some (CHR ''T'', 0) \<and> dotless (symTab dup_object) \<and>
   map_ok (symTab dup_object) \<and>
   extract_char (Some ''D f 0x4'') = (Some CHR ''D'', Some '' f 0x4'') \<and>
   extract_string (Some '' f 0x4'') = (Some ''f'', Some '' 0x4'') \<and>
   fst (extract_u64 16 (Some '' 0x4'')) = Some 4 \<and> toupper CHR ''D'' = CHR ''D'' \<and>
   \<not> starts_with ''#'' ''D f 0x4'' \<and>
   readLines [''D f 0x4''] ''b.o'' (3, 0, dup_object) = throw (MultipleDefinition ''f'') \<and>
   (\<exists>obj'. readSegments (Some [''#SYMTAB'', ''T g 0x8'']) ''b.o'' dup_object = ok obj' \<and>
      map_of (symTab obj') ''f'' = Some (CHR ''T'', 0) \<and> dotless (symTab obj') \<and>
      map_ok (symTab obj'))"
proof -
  have p: "map_of (symTab dup_object) ''f'' = Some (CHR ''T'', 0)"
    by (simp add: dup_object_def)
  have d: "dotless (symTab dup_object)"
    by (simp add: dup_object_def dotless_def)
  have u: "map_ok (symTab dup_object)"
    by (simp add: dup_object_def map_ok_def)
  have e1: "extract_char (Some ''D f 0x4'') = (Some CHR ''D'', Some '' f 0x4'')" by code_simp
  have e2: "extract_string (Some '' f 0x4'') = (Some ''f'', Some '' 0x4'')" by code_simp
  have e3: "fst (extract_u64 16 (Some '' 0x4'')) = Some 4" by code_simp
  have e4: "toupper CHR ''D'' = CHR ''D''" by code_simp
  have e5: "\<not> starts_with ''#'' ''D f 0x4''" by code_simp
  have r: "case readSegments (Some [''#SYMTAB'', ''T g 0x8'']) ''b.o'' dup_object of
             Some (Inr obj') \<Rightarrow> True | _ \<Rightarrow> False"
    by code_simp
  then obtain obj' where o:
    "readSegments (Some [''#SYMTAB'', ''T g 0x8'']) ''b.o'' dup_object = ok obj'"
    by (auto simp: ok_def split: option.splits sum.splits)
  note m = multiple_definition [OF p d u, of "''D f 0x4''" "CHR ''D''" "Some '' f 0x4''"
      "Some '' 0x4''" 4 "[]" "''b.o''" 0 "Some [''#SYMTAB'', ''T g 0x8'']" obj']
  show ?thesis using m p d u e1 e2 e3 e4 e5 o by auto
qed

section \<open>The order of the members of an archive\<close>

lemma scan_directory:
  "scan es st sy ms = Some dir \<Longrightarrow> map_ok ms \<Longrightarrow>
   map_ok dir \<and> set dir = set ms \<union> set (regular_members es) \<and>
   length dir = length ms + length (regular_members es)"
proof (induction es st sy ms rule: scan.induct)
  case (1 st sy ms)
  then show ?case by simp
next
  case (2 es st sy ms)
  then show ?case by (simp split: if_splits)
next
  case (3 name body es st sy ms)
  show ?case
  proof (cases "length name = 0")
    case True
    then show ?thesis using 3 by (simp split: if_splits)
  next
    case False
    then have new: "name \<notin> fst ` set ms" and
      rest: "scan es st sy (map_assign name body ms) = Some dir"
      using "3.prems"(1) by (auto simp: map_count_keys split: if_splits)
    have "map_ok (map_assign name body ms)"
      using "3.prems"(2) by (rule map_ok_map_assign)
    with "3.IH"(2) False new rest show ?thesis
      by (simp add: map_count_keys set_map_assign_new length_map_assign_new)
  qed
qed

text \<open>
  C7, as the code has it. When an archive has no member \<^verbatim>\<open>__SYMTAB_INDEX\<close>, the
  directory that \<^verbatim>\<open>addLibOrObject\<close> walks through holds every named member of the
  archive once and is in ascending order of the member names, whatever the order of the
  members in the file; each member of the directory is handed to \<^verbatim>\<open>readSegments\<close> once,
  in that order.
\<close>

theorem archive_members_in_name_order:
  assumes arch: "map_of fs path = Some (Archive es)"
      and dir: "open_archive fs path = Some members"
      and noindex: "map_of members ''__SYMTAB_INDEX'' = None"
      and nolib: "\<not> starts_with ''-l'' path"
  shows "sorted (map fst members) \<and> distinct (map fst members) \<and>
         set members = set (regular_members es) \<and>
         length members = length (regular_members es) \<and>
         addLibOrObject fs path onlyLibs obj =
           bindR (readMembers members path obj) (\<lambda>obj'. ok (0, obj'))"
proof -
  have "scan es False False [] = Some members"
    using arch dir by (simp add: open_archive_def)
  from scan_directory [OF this] have
    "map_ok members \<and> set members = set (regular_members es) \<and>
     length members = length (regular_members es)"
    by (simp add: map_ok_def)
  moreover have "addLibOrObject fs path onlyLibs obj =
           bindR (readMembers members path obj) (\<lambda>obj'. ok (0, obj'))"
    using dir noindex nolib by (simp add: addLibOrObject_def)
  ultimately show ?thesis by (simp add: map_ok_def)
qed

theorem archive_members_in_name_order_witness:
  "map_of [(''lib.a'', Archive lib_a)] ''lib.a'' = Some (Archive lib_a) \<and>
   open_archive [(''lib.a'', Archive lib_a)] ''lib.a'' =
     Some [(''a.o'', [''#TEXT'', ''AA'']), (''b.o'', [''#TEXT'', ''BB''])] \<and>
   map_of [(''a.o'', [''#TEXT'', ''AA'']), (''b.o'', [''#TEXT'', ''BB''])] ''__SYMTAB_INDEX'' = None \<and>
   \<not> starts_with ''-l'' ''lib.a'' \<and>
   sorted (map fst [(''a.o'', [''#TEXT'', ''AA'']), (''b.o'', [''#TEXT'', ''BB''])]) \<and>
   set [(''a.o'', [''#TEXT'', ''AA'']), (''b.o'', [''#TEXT'', ''BB''])] = set (regular_members lib_a) \<and>
   addLibOrObject [(''lib.a'', Archive lib_a)] ''lib.a'' False (ObjectFile_init None) =
     bindR (readMembers [(''a.o'', [''#TEXT'', ''AA'']), (''b.o'', [''#TEXT'', ''BB''])] ''lib.a''
              (ObjectFile_init None))
       (\<lambda>obj'. ok (0, obj'))"
proof -
  have o: "open_archive [(''lib.a'', Archive lib_a)] ''lib.a'' =
     Some [(''a.o'', [''#TEXT'', ''AA'']), (''b.o'', [''#TEXT'', ''BB''])]"
    by code_simp
  have n: "map_of [(''a.o'', [''#TEXT'', ''AA'']), (''b.o'', [''#TEXT'', ''BB''])] ''__SYMTAB_INDEX'' = None"
    by simp
  have l: "\<not> starts_with ''-l'' ''lib.a''"
    by (simp add: starts_with_def)
  have f: "map_of [(''lib.a'', Archive lib_a)] ''lib.a'' = Some (Archive lib_a)"
    by simp
  show ?thesis
    using archive_members_in_name_order [OF f o n l, of False "ObjectFile_init None"] f o n l
    by simp
qed

text \<open>
  The members are not parsed in the order of the archive file: in \<open>lib_a\<close> the member
  \<^verbatim>\<open>b.o\<close> with the text byte \<open>BB\<close> comes before \<^verbatim>\<open>a.o\<close> with the text byte \<open>AA\<close>,
  and the text segment gets \<open>AA\<close> first.
\<close>

theorem archive_order_counterexample:
  "regular_members lib_a = [(''b.o'', [''#TEXT'', ''BB'']), (''a.o'', [''#TEXT'', ''AA''])] \<and>
   (case addLibOrObject [(''lib.a'', Archive lib_a)] ''lib.a'' False (ObjectFile_init None) of
      Some (Inr (r, obj)) \<Rightarrow> memory (segments obj 0) = [(0, 0xAA), (1, 0xBB)]
    | _ \<Rightarrow> False)"
  by code_simp

section \<open>Groups that are not hexadecimal\<close>

lemma extract_signed_Some:
  "dropWhile isspace s = c # r \<Longrightarrow> \<exists>v st. extract_signed w b (Some s) = (Some v, st)"
  by (auto simp: extract_signed_def split: prod.splits option.splits)

lemma hexByte_Some:
  assumes "g \<noteq> []" and "\<not> isspace (hd g)"
  shows "\<exists>b c. hexByte g = Some (b, c)"
proof -
  obtain c r where g: "g = c # r" using assms(1) by (cases g) auto
  have "dropWhile isspace g = c # r" using assms(2) g by simp
  from extract_signed_Some [OF this] obtain v st where
    "extract_signed 32 16 (Some g) = (Some v, st)" by blast
  then show ?thesis by (simp add: hexByte_def)
qed

lemma insertLoop_Inr:
  "\<forall>c\<in>set h. \<not> isspace c \<Longrightarrow> 2 * n \<le> length h \<Longrightarrow> \<exists>mem'. insertLoop n a h mem = Inr mem'"
proof (induction n arbitrary: a h mem)
  case 0
  show ?case by simp
next
  case (Suc n)
  have ne: "take 2 h \<noteq> []" using Suc.prems(2) by auto
  have "hd (take 2 h) \<in> set h"
    using ne by (metis hd_in_set in_set_takeD)
  then have "\<not> isspace (hd (take 2 h))" using Suc.prems(1) by simp
  from hexByte_Some [OF ne this] obtain b c where hb: "hexByte (take 2 h) = Some (b, c)" by blast
  have "\<forall>c\<in>set (drop 2 h). \<not> isspace c"
    using Suc.prems(1) by (meson in_set_dropD)
  moreover have "2 * n \<le> length (drop 2 h)" using Suc.prems(2) by simp
  ultimately obtain mem' where
    "insertLoop n (a + 1) (drop 2 h) (map_assign a b mem) = Inr mem'"
    using Suc.IH by blast
  then show ?case using hb by simp
qed

text \<open>
  A group whose first character is neither a hexadecimal digit nor a sign: the
  extraction fails, the message is written, and the byte is 0.
\<close>

lemma hexByte_not_a_number:
  assumes "\<not> is_digit 16 c1" and "c1 \<noteq> CHR ''+''" and "c1 \<noteq> CHR ''-''" and "\<not> isspace c1"
  shows "hexByte [c1, c2] = Some (0, True)"
proof -
  have z: "c1 \<noteq> CHR ''0''"
    using assms(1) by (auto simp: is_digit_def digit_of_def)
  have "scan_number 16 [c1, c2] = (None, [c1, c2])"
    using assms z by (simp add: scan_number_def)
  then show ?thesis
    using assms(4) by (simp add: hexByte_def extract_signed_def)
qed

text \<open>
  \<^verbatim>\<open>readSegments\<close> hands \<^verbatim>\<open>insertByteString\<close> a string without white space. For such
  a string of even length, at an address that needs no padding, \<^verbatim>\<open>insertByteString\<close>
  returns normally whatever the characters are: no group ends the link.
\<close>

lemma insertByteString_returns:
  assumes nospace: "\<forall>c\<in>set hexDigits. \<not> isspace c"
      and even: "length hexDigits mod 2 = 0"
      and nogap: "\<not> requiresAdvanceTo (addr - baseAddr s) s"
  shows "\<exists>mem. insertByteString addr hexDigits s = ok (s\<lparr>memory := mem\<rparr>)"
proof -
  have len: "2 * (length hexDigits div 2) \<le> length hexDigits" by simp
  from insertLoop_Inr [OF nospace len] obtain mem where
    m: "insertLoop (length hexDigits div 2) (addr - baseAddr s) hexDigits (memory s) = Inr mem"
    by blast
  have "insertByteString addr hexDigits s = ok (s\<lparr>memory := mem\<rparr>)"
    using m even nogap by (simp add: insertByteString_def bindR_def ok_def)
  then show ?thesis ..
qed

text \<open>
  C9 at an object file whose line of bytes is the group \<^verbatim>\<open>ZZ\<close>. The extraction
  \<^verbatim>\<open>in >> std::hex >> byte\<close> fails and the source writes "not in hex format or
  corrupted" to \<^verbatim>\<open>std::cerr\<close>, but it goes on: the byte 0 is stored for the group,
  \<^verbatim>\<open>main\<close> links the object and writes the output file \<^verbatim>\<open>a.out\<close>. Within a longer
  line the other groups are stored around that byte: \<^verbatim>\<open>11ZZ22\<close> gives \<open>11 00 22\<close>. A
  group such as \<^verbatim>\<open>1Z\<close>, whose first character alone is a digit, is not even reported
  and is stored as \<open>01\<close>. The other check of the format in the same function, the one
  for a string of odd length, is an \<^verbatim>\<open>assert\<close> and does end the link.
\<close>

theorem non_hex_group_not_fatal:
  "hexByte ''ZZ'' = Some (0, True) \<and>
   hexByte ''1Z'' = Some (1, False) \<and>
   (case main None [(''z.o'', Text [''#TEXT'', ''ZZ''])] [''z.o''] of
      Some (Linked f obj) \<Rightarrow> f = ''a.out'' \<and> memory (segments obj 0) = [(0, 0)]
    | _ \<Rightarrow> False) \<and>
   (case main None [(''z.o'', Text [''#TEXT'', ''11ZZ22''])] [''z.o''] of
      Some (Linked f obj) \<Rightarrow> memory (segments obj 0) = [(0, 0x11), (1, 0), (2, 0x22)]
    | _ \<Rightarrow> False) \<and>
   (case main None [(''z.o'', Text [''#TEXT'', ''112''])] [''z.o''] of
      Some (Aborted e) \<Rightarrow> e = AssertionFailed
    | _ \<Rightarrow> False)"
  by code_simp

section \<open>The store of a segment has no holes\<close>

lemma u64_of_nat_less:
  "i < j \<Longrightarrow> j < 2 ^ 64 \<Longrightarrow> (of_nat i :: u64) < of_nat j"
  by (simp add: word_of_nat_less_iff take_bit_nat_eq_self)

lemma dense_strict:
  assumes "dense m"
  shows "sorted_wrt (<) (map fst m)"
proof -
  have "sorted_wrt (\<lambda>i j. (of_nat i :: u64) < of_nat j) [0..<length m]"
  proof (rule sorted_wrt_mono_rel [of _ "(<)"])
    fix i j assume "i \<in> set [0..<length m]" "j \<in> set [0..<length m]" "i < j"
    then show "(of_nat i :: u64) < of_nat j"
      using assms by (intro u64_of_nat_less) (auto simp: dense_def)
  qed simp
  then show ?thesis
    using assms by (simp add: dense_def sorted_wrt_map)
qed

lemma dense_map_ok: "dense m \<Longrightarrow> map_ok m"
  using dense_strict [of m] by (simp add: map_ok_def strict_sorted_iff)

lemma dense_keys: "dense m \<Longrightarrow> fst ` set m = {k. unat k < length m}"
proof -
  assume d: "dense m"
  have "fst ` set m = set (map fst m)" by simp
  also have "\<dots> = (of_nat :: nat \<Rightarrow> u64) ` {0..<length m}"
    using d by (simp add: dense_def)
  also have "\<dots> = {k. unat k < length m}"
  proof (intro set_eqI iffI)
    fix k :: u64 assume "k \<in> of_nat ` {0..<length m}"
    then obtain i where i: "i < length m" "k = of_nat i" by auto
    then have "unat k = i"
      using d by (simp add: dense_def unat_of_nat take_bit_nat_eq_self)
    then show "k \<in> {k. unat k < length m}" using i by simp
  next
    fix k :: u64 assume "k \<in> {k. unat k < length m}"
    then have "unat k < length m" by simp
    moreover have "k = of_nat (unat k)" by simp
    ultimately show "k \<in> of_nat ` {0..<length m}"
      by (metis atLeastLessThan_iff image_eqI zero_le)
  qed
  finally show ?thesis .
qed

lemma map_assign_present:
  "map_ok m \<Longrightarrow> k \<in> fst ` set m \<Longrightarrow> map fst (map_assign k v m) = map fst m"
proof (induction m)
  case Nil
  then show ?case by simp
next
  case (Cons x m)
  obtain a b where x: "x = (a, b)" by (cases x)
  have ok: "map_ok m" using Cons.prems(1) by (simp add: map_ok_def)
  show ?case
  proof (cases "k = a")
    case True
    then show ?thesis by (simp add: x)
  next
    case False
    then have km: "k \<in> fst ` set m" using Cons.prems(2) x by auto
    then have "a \<le> k" using Cons.prems(1) x by (auto simp: map_ok_def)
    then have "\<not> k < a" by simp
    then show ?thesis using False Cons.IH [OF ok km] by (simp add: x)
  qed
qed

lemma map_assign_beyond:
  "\<forall>k'\<in>fst ` set m. k' < k \<Longrightarrow> map_assign k v m = m @ [(k, v)]"
  by (induction m) auto

lemma dense_write:
  assumes d: "dense m" and k: "unat k \<le> length m"
  shows "dense (map_assign k v m) \<and> length m \<le> length (map_assign k v m) \<and>
         unat k < length (map_assign k v m)"
proof (cases "unat k < length m")
  case True
  then have "k \<in> fst ` set m" using dense_keys [OF d] by simp
  then have keys: "map fst (map_assign k v m) = map fst m"
    using dense_map_ok [OF d] by (rule map_assign_present [rotated])
  then have "length (map_assign k v m) = length m"
    by (metis length_map)
  then show ?thesis using d keys True by (simp add: dense_def)
next
  case False
  then have n: "unat k = length m" using k by simp
  then have lt: "length m < 2 ^ 64"
    using unsigned_less [of k, where ?'a = nat] by simp
  have kk: "k = of_nat (length m)" using n word_unat_eq_iff [of k "of_nat (length m)"] lt by (simp add: unat_of_nat take_bit_nat_eq_self)
  have "\<forall>k'\<in>fst ` set m. k' < k"
    using dense_keys [OF d] n by (auto simp: word_less_nat_alt)
  then have app: "map_assign k v m = m @ [(k, v)]" by (rule map_assign_beyond)
  show ?thesis
    unfolding app using d lt kk n by (simp add: dense_def)
qed

lemma unat_size_seg: "unat (size_seg s) \<le> length (memory s)"
  by (simp add: size_seg_def unat_of_nat)

lemma appendByte_grows: "contiguous s \<Longrightarrow> grows s (appendByte b s)"
  using dense_write [of "memory s" "size_seg s" b] unat_size_seg [of s]
  by (simp add: grows_def contiguous_def appendByte_def)

lemma grows_trans: "grows s s1 \<Longrightarrow> grows s1 s2 \<Longrightarrow> grows s s2"
  by (auto simp: grows_def)

lemma grows_refl: "contiguous s \<Longrightarrow> grows s s"
  by (simp add: grows_def)

lemma advanceLoop_grows:
  assumes "advanceLoop a s = Some s'"
  shows "contiguous s \<longrightarrow> grows s s'"
proof (rule advanceLoop.raw_induct [where P = "\<lambda>a s s'. contiguous s \<longrightarrow> grows s s'", OF _ assms])
  fix f a s s'
  assume IH: "\<And>a s s'. f a s = Some s' \<Longrightarrow> contiguous s \<longrightarrow> grows s s'"
     and step: "(if size_seg s < a then f a (appendByte (fill s) s) else Some s) = Some s'"
  show "contiguous s \<longrightarrow> grows s s'"
  proof
    assume c: "contiguous s"
    show "grows s s'"
    proof (cases "size_seg s < a")
      case True
      have g: "grows s (appendByte (fill s) s)" using c by (rule appendByte_grows)
      then have c1: "contiguous (appendByte (fill s) s)" by (simp add: grows_def)
      have "f a (appendByte (fill s) s) = Some s'"
        using step True by simp
      from IH [OF this] c1 have "grows (appendByte (fill s) s) s'" by simp
      with g show ?thesis by (rule grows_trans)
    next
      case False
      then have "s' = s" using step by simp
      then show ?thesis using c by (simp add: grows_refl)
    qed
  qed
qed

lemma advanceTo_grows:
  "advanceTo a s = Some (Inr s') \<Longrightarrow> contiguous s \<Longrightarrow> grows s s'"
  using advanceLoop_grows [of "a - baseAddr s" s]
  by (auto simp: advanceTo_def Let_def ok_def throw_def split: if_splits option.splits)

lemma setAlignment_grows:
  assumes "setAlignment a s = Some (Inr s')" and "contiguous s"
  shows "grows s s'"
proof -
  let ?s1 = "if a > alignment s then s\<lparr>alignment := a\<rparr> else s"
  have r: "advanceTo (alignAddr (size_seg ?s1) (alignment ?s1)) ?s1 = Some (Inr s')"
    using assms(1) by (simp add: setAlignment_def Let_def throw_def split: if_splits)
  have "contiguous ?s1" using assms(2) by (simp add: contiguous_def)
  from advanceTo_grows [OF r this] show ?thesis by (simp add: grows_def split: if_splits)
qed

lemma insertLoop_dense:
  "insertLoop n a h mem = Inr mem' \<Longrightarrow> dense mem \<Longrightarrow> unat a \<le> length mem \<Longrightarrow>
   dense mem' \<and> length mem \<le> length mem'"
proof (induction n arbitrary: a h mem)
  case 0
  then show ?case by simp
next
  case (Suc n)
  from Suc.prems(1) obtain b c where
    hb: "hexByte (take 2 h) = Some (b, c)" and
    rest: "insertLoop n (a + 1) (drop 2 h) (map_assign a b mem) = Inr mem'"
    by (auto split: option.splits prod.splits)
  from dense_write [OF Suc.prems(2,3), of b] have
    w: "dense (map_assign a b mem)" "length mem \<le> length (map_assign a b mem)"
       "unat a < length (map_assign a b mem)"
    by simp_all
  have "unat (a + 1) \<le> unat a + 1"
    by (simp add: unat_word_ariths)
  then have "unat (a + 1) \<le> length (map_assign a b mem)" using w(3) by simp
  from Suc.IH [OF rest w(1) this] show ?case using w(2) by simp
qed

lemma insertByteString_grows:
  assumes r: "insertByteString addr hexDigits s = Some (Inr s')"
      and c: "contiguous s"
      and gate: "\<not> requiresAdvanceTo addr s"
  shows "grows s s'"
proof -
  let ?a = "addr - baseAddr s"
  from r obtain s1 mem where
    s1: "(if requiresAdvanceTo ?a s then advanceTo ?a s else ok s) = Some (Inr s1)" and
    loop: "insertLoop (length hexDigits div 2) ?a hexDigits (memory s1) = Inr mem" and
    s': "s' = s1\<lparr>memory := mem\<rparr>"
    by (auto simp: insertByteString_def Let_def bindR_ok_iff ok_def throw_def
             split: if_splits sum.splits)
  have g1: "grows s s1"
    using s1 c advanceTo_grows [of ?a s s1] by (auto simp: ok_def grows_refl split: if_splits)
  have "?a \<le> size_seg s" using gate by (simp add: requiresAdvanceTo_def)
  then have "unat ?a \<le> length (memory s)"
    using unat_size_seg [of s] by (simp add: word_le_nat_alt)
  then have le: "unat ?a \<le> length (memory s1)" using g1 by (simp add: grows_def)
  have "dense (memory s1)" using g1 by (simp add: grows_def contiguous_def)
  from insertLoop_dense [OF loop this le] have "grows s1 s'"
    by (simp add: grows_def contiguous_def s')
  with g1 show ?thesis by (rule grows_trans)
qed

lemma run_op_grows:
  "run_op opn s = Some (Inr s') \<Longrightarrow> contiguous s \<Longrightarrow> grows s s'"
  by (cases opn)
     (auto simp: run_op_def ok_def throw_def appendByte_grows
           intro: advanceTo_grows setAlignment_grows insertByteString_grows split: if_splits)

lemma run_ops_grows:
  "run_ops ops s = Some (Inr s') \<Longrightarrow> contiguous s \<Longrightarrow> grows s s'"
proof (induction ops arbitrary: s)
  case Nil
  then show ?case by (simp add: ok_def grows_refl)
next
  case (Cons opn ops)
  from Cons.prems(1) obtain s1 where
    a: "run_op opn s = Some (Inr s1)" and b: "run_ops ops s1 = Some (Inr s')"
    by (auto simp: bindR_ok_iff)
  have g: "grows s s1" using a Cons.prems(2) by (rule run_op_grows)
  then have "contiguous s1" by (simp add: grows_def)
  from Cons.IH [OF b this] g show ?case by (rule grows_trans [rotated])
qed

text \<open>Padding a contiguous store of fewer than \<open>2 ^ 64\<close> bytes returns.\<close>

lemma dense_append:
  assumes d: "dense m" and lt: "length m < 2 ^ 64"
  shows "map_assign (of_nat (length m)) v m = m @ [(of_nat (length m), v)]"
proof -
  have u: "unat (of_nat (length m) :: u64) = length m"
    using lt by (simp add: unat_of_nat take_bit_nat_eq_self)
  have "\<forall>k'\<in>fst ` set m. k' < (of_nat (length m) :: u64)"
    using dense_keys [OF d] u by (auto simp: word_less_nat_alt)
  then show ?thesis by (rule map_assign_beyond)
qed

lemma advanceLoop_returns:
  "contiguous s \<Longrightarrow> length (memory s) < 2 ^ 64 \<Longrightarrow> \<exists>s'. advanceLoop a s = Some s'"
proof (induction "unat a - length (memory s)" arbitrary: s rule: less_induct)
  case less
  have u: "unat (size_seg s) = length (memory s)"
    using less.prems(2) by (simp add: size_seg_def unat_of_nat take_bit_nat_eq_self)
  show ?case
  proof (cases "size_seg s < a")
    case False
    then show ?thesis by (subst advanceLoop.simps) simp
  next
    case True
    let ?s1 = "appendByte (fill s) s"
    have lt: "length (memory s) < unat a"
      using True u by (simp add: word_less_nat_alt)
    have m1: "memory ?s1 = memory s @ [(of_nat (length (memory s)), fill s)]"
      using dense_append [of "memory s" "fill s"] less.prems
      by (simp add: appendByte_def size_seg_def contiguous_def)
    have c1: "contiguous ?s1"
      using appendByte_grows [OF less.prems(1)] by (simp add: grows_def)
    have "unat a < 2 ^ 64"
      using unsigned_less [of a, where ?'a = nat] by simp
    then have l1: "length (memory ?s1) < 2 ^ 64" using lt m1 by simp
    have "unat a - length (memory ?s1) < unat a - length (memory s)"
      using lt m1 by simp
    from less.hyps [OF this c1 l1] obtain s' where "advanceLoop a ?s1 = Some s'" by blast
    then show ?thesis using True by (subst advanceLoop.simps) simp
  qed
qed

text \<open>
  C10. Start from a segment whose store holds exactly the offsets below its size. After
  any sequence of \<^verbatim>\<open>appendByte\<close>, \<^verbatim>\<open>advanceTo\<close>, \<^verbatim>\<open>setAlignment\<close> and
  \<^verbatim>\<open>insertByteString\<close> (the last where \<^verbatim>\<open>requiresAdvanceTo\<close> does not hold) that returns,
  the keys of the store are again \<open>0, 1, ..., size - 1\<close>, in this order and each once:
  the set of written offsets is the set of the offsets below the number of stored
  bytes, and below \<^verbatim>\<open>size()\<close> as long as that number fits the 64 bits of
  \<^verbatim>\<open>std::uint64_t\<close>.
\<close>

theorem parse_operations_keep_store_contiguous:
  assumes "contiguous s" and "run_ops ops s = ok s'"
  shows "contiguous s' \<and> fst ` set (memory s') = {k. unat k < length (memory s')} \<and>
         (length (memory s') < 2 ^ 64 \<longrightarrow> fst ` set (memory s') = {k. k < size_seg s'})"
proof -
  have "grows s s'"
    using assms run_ops_grows [of ops s s'] by (simp add: ok_def)
  then have c: "contiguous s'" by (simp add: grows_def)
  then have k: "fst ` set (memory s') = {k. unat k < length (memory s')}"
    using dense_keys [of "memory s'"] by (simp add: contiguous_def)
  have "fst ` set (memory s') = {k. k < size_seg s'}" if "length (memory s') < 2 ^ 64"
  proof -
    have "unat (size_seg s') = length (memory s')"
      using that by (simp add: size_seg_def unat_of_nat take_bit_nat_eq_self)
    then show ?thesis using k by (simp add: word_less_nat_alt)
  qed
  then show ?thesis using c k by blast
qed

theorem parse_operations_keep_store_contiguous_witness:
  "contiguous Segment_init \<and>
   run_ops parse_ops Segment_init =
     ok (Segment_init\<lparr>alignment := 4,
           memory := [(0, 1), (1, 0xFD), (2, 0xAA), (3, 0xBB), (4, 0xCC), (5, 0xDD),
                      (6, 0xFD), (7, 0xFD)]\<rparr>) \<and>
   contiguous (Segment_init\<lparr>alignment := 4,
           memory := [(0, 1), (1, 0xFD), (2, 0xAA), (3, 0xBB), (4, 0xCC), (5, 0xDD),
                      (6, 0xFD), (7, 0xFD)]\<rparr>)"
proof -
  have c: "contiguous Segment_init"
    by (simp add: contiguous_def dense_def Segment_init_def)
  have r: "run_ops parse_ops Segment_init =
     ok (Segment_init\<lparr>alignment := 4,
           memory := [(0, 1), (1, 0xFD), (2, 0xAA), (3, 0xBB), (4, 0xCC), (5, 0xDD),
                      (6, 0xFD), (7, 0xFD)]\<rparr>)"
    by code_simp
  show ?thesis
    using parse_operations_keep_store_contiguous [OF c r] c r by simp
qed

section \<open>Archives that need each other\<close>
























end
